theory Spec2Isabelle
  imports Complex_Main "HOL-Library.Sublist" "HOL-Library.AList" "HOL-Library.Multiset"
begin

section \<open>The search engine of package \<open>search\<close> (src/main.go)\<close>

text \<open>
  The theory embeds the in-memory search engine: the tokenizer, the inverted index and
  its maintenance by \<open>AddDoc\<close>/\<open>reindexDoc\<close>, the BM25 scorer, the ranking and
  normalisation of \<open>Search\<close>, the excerpt extractor and \<open>LoadCache\<close>.

  Conventions of the embedding.
  \<^item> A Go \<open>string\<close> is a \<open>char list\<close>; positions and lengths count list elements. The
    model covers ASCII text: the letter, digit, space and lower-case tables below are
    the ASCII part of Go's Unicode tables (standard library, not code of the package).
  \<^item> A Go \<open>int\<close> holding a slot index is an \<open>int\<close>; every read \<open>e.docs[idx]\<close> is
    checked, and a read out of range is the fault \<open>IndexOutOfRange\<close> (Go panics).
  \<^item> A \<open>float64\<close> is a real number or one of the special values \<open>+Inf\<close>, \<open>-Inf\<close>,
    \<open>NaN\<close>; arithmetic on finite values is exact (no rounding, no overflow, the two
    zeros identified), arithmetic on special values follows IEEE 754.
  \<^item> The engine's mutex is not modelled: every operation is one atomic step.
  \<^item> The map \<open>e.index\<close> is an association list with its keys in first-insertion order.
    Go iterates a map in an unspecified order; where the result depends on that order
    (the candidates collected by \<open>Search\<close>) the order is an explicit argument.
\<close>

subsection \<open>Strings (package \<open>strings\<close> and \<open>unicode\<close>, ASCII)\<close>

definition lowerLetters :: string where
  "lowerLetters = ''abcdefghijklmnopqrstuvwxyz''"

definition upperLetters :: string where
  "upperLetters = ''ABCDEFGHIJKLMNOPQRSTUVWXYZ''"

definition digitChars :: string where
  "digitChars = ''0123456789''"

definition IsLetter :: "char \<Rightarrow> bool" where
  "IsLetter r = (r \<in> set (lowerLetters @ upperLetters))"

definition IsDigit :: "char \<Rightarrow> bool" where
  "IsDigit r = (r \<in> set digitChars)"

definition toLowerRune :: "char \<Rightarrow> char" where
  "toLowerRune r = (case map_of (zip upperLetters lowerLetters) r of Some l \<Rightarrow> l | None \<Rightarrow> r)"

definition ToLower :: "string \<Rightarrow> string" where
  "ToLower s = map toLowerRune s"

text \<open>The white space of \<open>strings.TrimSpace\<close>: tab, line feed, vertical tab, form feed,
  carriage return and space.\<close>

definition IsSpace :: "char \<Rightarrow> bool" where
  "IsSpace r = (r \<in> {CHR 0x09, CHR 0x0A, CHR 0x0B, CHR 0x0C, CHR 0x0D, CHR '' ''})"

definition TrimSpace :: "string \<Rightarrow> string" where
  "TrimSpace s = rev (dropWhile IsSpace (rev (dropWhile IsSpace s)))"

definition HasPrefix :: "string \<Rightarrow> string \<Rightarrow> bool" where
  "HasPrefix s p = prefix p s"

text \<open>\<open>strings.Index\<close>: the position of the first occurrence of \<open>sub\<close> in \<open>s\<close>, or
  \<open>None\<close> where Go returns \<open>-1\<close>.\<close>

fun Index :: "string \<Rightarrow> string \<Rightarrow> nat option" where
  "Index [] sub = (if sub = [] then Some 0 else None)"
| "Index (c # cs) sub =
     (if prefix sub (c # cs) then Some 0 else map_option Suc (Index cs sub))"

definition Contains :: "string \<Rightarrow> string \<Rightarrow> bool" where
  "Contains s sub = (Index s sub \<noteq> None)"

fun Join :: "string list \<Rightarrow> string \<Rightarrow> string" where
  "Join [] sep = []"
| "Join [x] sep = x"
| "Join (x # y # ys) sep = x @ sep @ Join (y # ys) sep"

subsection \<open>Data model\<close>

record Doc =
  ID :: string
  Title :: string
  URL :: string
  Content :: string
  Tags :: "string list"

datatype float64 = Fin real | PInf | NInf | NaN

record Result =
  rTitle :: string
  rURL :: string
  Excerpt :: string
  Score :: float64

text \<open>\<open>docs\<close> is the slice of documents, \<open>index\<close> the map from a token to its postings
  (a slice of slot indices).\<close>

record Engine =
  docs :: "Doc list"
  index :: "(string \<times> int list) list"

datatype fault = IndexOutOfRange | SliceBoundsOutOfRange | MakeSliceCapOutOfRange | NoReturn

definition NewEngine :: Engine where
  "NewEngine = \<lparr>docs = [], index = []\<rparr>"

definition DocCount :: "Engine \<Rightarrow> int" where
  "DocCount e = int (length (docs e))"

subsection \<open>Tokenizer\<close>

definition stopWords :: "string list" where
  "stopWords = [''the'', ''a'', ''an'', ''is'', ''in'', ''to'', ''of'', ''and'', ''or'', ''for'',
     ''on'', ''with'', ''this'', ''that'', ''it'', ''be'', ''as'', ''at'', ''by'', ''we'',
     ''how'', ''do'', ''i'', ''you'', ''can'', ''what'', ''from'', ''are'', ''use'', ''used'']"

text \<open>The end of a run of letters and digits: the run \<open>current\<close> becomes a token when it
  has at least two characters and is not a stop word.\<close>

definition flush :: "string \<Rightarrow> string list \<Rightarrow> string list" where
  "flush current tokens =
     (if length current \<ge> 2 \<and> current \<notin> set stopWords then tokens @ [current] else tokens)"

text \<open>The loop of \<open>tokenize\<close> over the runes of the lower-cased text, with the builder
  \<open>current\<close> and the tokens found so far.\<close>

fun tokenizeLoop :: "string \<Rightarrow> string \<Rightarrow> string list \<Rightarrow> string list" where
  "tokenizeLoop [] current tokens = flush current tokens"
| "tokenizeLoop (r # rs) current tokens =
     (if IsLetter r \<or> IsDigit r then tokenizeLoop rs (current @ [r]) tokens
      else tokenizeLoop rs [] (flush current tokens))"

definition tokenize :: "string \<Rightarrow> string list" where
  "tokenize text = tokenizeLoop (ToLower text) [] []"

subsection \<open>Index maintenance\<close>

text \<open>\<open>e.index[tok]\<close>: the postings of a token, the empty slice for a missing key.\<close>

definition postings :: "(string \<times> int list) list \<Rightarrow> string \<Rightarrow> int list" where
  "postings ix tok = (case map_of ix tok of None \<Rightarrow> [] | Some ps \<Rightarrow> ps)"

text \<open>The loop of \<open>reindexDoc\<close>: every token not yet in \<open>seen\<close> gets \<open>idx\<close> appended to
  its postings.\<close>

fun reindexLoop :: "string list \<Rightarrow> string set \<Rightarrow> int \<Rightarrow> (string \<times> int list) list
    \<Rightarrow> (string \<times> int list) list" where
  "reindexLoop [] seen idx ix = ix"
| "reindexLoop (tok # toks) seen idx ix =
     (if tok \<in> seen then reindexLoop toks seen idx ix
      else reindexLoop toks (insert tok seen) idx (AList.update tok (postings ix tok @ [idx]) ix))"

definition reindexDoc :: "int \<Rightarrow> Doc \<Rightarrow> Engine \<Rightarrow> Engine" where
  "reindexDoc idx doc e =
     (let combined = Title doc @ '' '' @ Content doc @ '' '' @ Join (Tags doc) '' '';
          tokens = tokenize combined
      in e\<lparr>index := reindexLoop tokens {} idx (index e)\<rparr>)"

text \<open>The first slot whose document has the given URL, counted from \<open>i\<close>.\<close>

fun findURL :: "Doc list \<Rightarrow> string \<Rightarrow> nat \<Rightarrow> nat option" where
  "findURL [] u i = None"
| "findURL (d # ds) u i = (if URL d = u then Some i else findURL ds u (Suc i))"

definition AddDoc :: "Doc \<Rightarrow> Engine \<Rightarrow> Engine" where
  "AddDoc doc e =
     (case findURL (docs e) (URL doc) 0 of
        Some i \<Rightarrow> reindexDoc (int i) doc (e\<lparr>docs := (docs e)[i := doc]\<rparr>)
      | None \<Rightarrow> reindexDoc (int (length (docs e))) doc (e\<lparr>docs := docs e @ [doc]\<rparr>))"

fun AddResults :: "Result list \<Rightarrow> Engine \<Rightarrow> Engine" where
  "AddResults [] e = e"
| "AddResults (r # rs) e =
     AddResults rs
       (AddDoc \<lparr>ID = rURL r, Title = rTitle r, URL = rURL r, Content = Excerpt r, Tags = []\<rparr> e)"

text \<open>The states an engine can be in: \<open>NewEngine\<close> followed by any number of \<open>AddDoc\<close>
  (\<open>AddResults\<close> and \<open>LoadCache\<close> change the state through \<open>AddDoc\<close> only, \<open>Search\<close> and
  \<open>SaveCache\<close> do not change it).\<close>

inductive reachable :: "Engine \<Rightarrow> bool" where
  reachable_new: "reachable NewEngine"
| reachable_add: "reachable e \<Longrightarrow> reachable (AddDoc doc e)"

subsection \<open>Arithmetic on \<open>float64\<close>\<close>

fun fneg :: "float64 \<Rightarrow> float64" where
  "fneg (Fin x) = Fin (- x)"
| "fneg PInf = NInf"
| "fneg NInf = PInf"
| "fneg NaN = NaN"

fun fadd :: "float64 \<Rightarrow> float64 \<Rightarrow> float64" where
  "fadd (Fin x) (Fin y) = Fin (x + y)"
| "fadd NaN y = NaN"
| "fadd x NaN = NaN"
| "fadd PInf NInf = NaN"
| "fadd NInf PInf = NaN"
| "fadd PInf y = PInf"
| "fadd x PInf = PInf"
| "fadd NInf y = NInf"
| "fadd x NInf = NInf"

definition fsub :: "float64 \<Rightarrow> float64 \<Rightarrow> float64" where
  "fsub x y = fadd x (fneg y)"

text \<open>An infinity of the sign of \<open>x\<close> for \<open>x\<close> positive, of the other sign for \<open>x\<close>
  negative, \<open>NaN\<close> for zero.\<close>

definition signedInf :: "real \<Rightarrow> float64 \<Rightarrow> float64" where
  "signedInf x w = (if x = 0 then NaN else if x > 0 then w else fneg w)"

fun fmul :: "float64 \<Rightarrow> float64 \<Rightarrow> float64" where
  "fmul (Fin x) (Fin y) = Fin (x * y)"
| "fmul NaN y = NaN"
| "fmul x NaN = NaN"
| "fmul (Fin x) y = signedInf x y"
| "fmul x (Fin y) = signedInf y x"
| "fmul PInf y = y"
| "fmul NInf y = fneg y"

fun fdiv :: "float64 \<Rightarrow> float64 \<Rightarrow> float64" where
  "fdiv (Fin x) (Fin y) = (if y \<noteq> 0 then Fin (x / y) else signedInf x PInf)"
| "fdiv NaN y = NaN"
| "fdiv x NaN = NaN"
| "fdiv (Fin x) y = Fin 0"
| "fdiv x (Fin y) = (if y \<ge> 0 then x else fneg x)"
| "fdiv x y = NaN"

text \<open>\<open>math.Log\<close>.\<close>

fun flog :: "float64 \<Rightarrow> float64" where
  "flog (Fin x) = (if x > 0 then Fin (ln x) else if x = 0 then NInf else NaN)"
| "flog PInf = PInf"
| "flog NInf = NaN"
| "flog NaN = NaN"

text \<open>The comparison \<open>x > y\<close>: false as soon as one side is \<open>NaN\<close>.\<close>

fun fgt :: "float64 \<Rightarrow> float64 \<Rightarrow> bool" where
  "fgt (Fin x) (Fin y) = (x > y)"
| "fgt NaN y = False"
| "fgt x NaN = False"
| "fgt PInf y = (y \<noteq> PInf)"
| "fgt x PInf = False"
| "fgt x NInf = (x \<noteq> NInf)"
| "fgt NInf y = False"

text \<open>The conversion \<open>float64(n)\<close> of a length or a count.\<close>

definition ofNat :: "nat \<Rightarrow> float64" where
  "ofNat n = Fin (real n)"

subsection \<open>Scorer\<close>

text \<open>The loop of \<open>countOccurrences\<close> over the lower-cased text. For the empty token
  \<open>strings.Index\<close> returns 0 and \<open>idx\<close> never advances: the loop does not end, which is
  the value \<open>None\<close>.\<close>

partial_function (option) countLoop :: "string \<Rightarrow> string \<Rightarrow> nat \<Rightarrow> nat \<Rightarrow> nat option" where
  "countLoop tok lower idx cnt =
     (case Index (drop idx lower) tok of
        None \<Rightarrow> Some cnt
      | Some i \<Rightarrow> countLoop tok lower (idx + (i + length tok)) (cnt + 1))"

definition countOccurrences :: "string \<Rightarrow> string \<Rightarrow> nat option" where
  "countOccurrences tok text = countLoop tok (ToLower text) 0 0"

text \<open>\<open>avgDocLen\<close>: the loop adds the token counts of the documents.\<close>

definition avgDocLen :: "Engine \<Rightarrow> float64" where
  "avgDocLen e =
     (if length (docs e) = 0 then Fin 100
      else fdiv (ofNat (foldl (\<lambda>total d. total + length (tokenize (Content d @ '' '' @ Title d)))
                          0 (docs e)))
                (ofNat (length (docs e))))"

text \<open>The score map of \<open>Search\<close>, from a slot to its running score; \<open>getScore\<close> is the
  read \<open>scores[idx]\<close>, which is \<open>0\<close> for a missing key.\<close>

type_synonym scoreMap = "int \<rightharpoonup> float64"

definition getScore :: "scoreMap \<Rightarrow> int \<Rightarrow> float64" where
  "getScore scores idx = (case scores idx of None \<Rightarrow> Fin 0 | Some v \<Rightarrow> v)"

text \<open>The value \<open>tfNorm\<close> of \<open>scoreToken\<close>:
  \<open>float64(tf) * (k1 + 1) / (float64(tf) + k1*(1-b+b*docLen/avgLen))\<close>.\<close>

definition tfNorm :: "float64 \<Rightarrow> float64 \<Rightarrow> float64 \<Rightarrow> float64 \<Rightarrow> float64 \<Rightarrow> float64" where
  "tfNorm tf docLen avgLen k1 b =
     fdiv (fmul tf (fadd k1 (Fin 1)))
          (fadd tf (fmul k1 (fadd (fsub (Fin 1) b) (fdiv (fmul b docLen) avgLen))))"

text \<open>The value \<open>idf\<close> of \<open>scoreToken\<close>: \<open>math.Log((N-df+0.5)/(df+0.5) + 1)\<close>.\<close>

definition idfOf :: "float64 \<Rightarrow> float64 \<Rightarrow> float64" where
  "idfOf N df = flog (fadd (fdiv (fadd (fsub N df) (Fin (1/2))) (fadd df (Fin (1/2)))) (Fin 1))"

text \<open>The loop of \<open>scoreToken\<close> over the postings of the token.\<close>

fun scoreLoop :: "Engine \<Rightarrow> string \<Rightarrow> int list \<Rightarrow> scoreMap \<Rightarrow> float64 \<Rightarrow> float64 \<Rightarrow> float64
    \<Rightarrow> float64 \<Rightarrow> float64 \<Rightarrow> fault + scoreMap" where
  "scoreLoop e tok [] scores idf avgLen k1 b boost = Inr scores"
| "scoreLoop e tok (idx # rest) scores idf avgLen k1 b boost =
     (if idx < 0 \<or> int (length (docs e)) \<le> idx then Inl IndexOutOfRange
      else
        let doc = docs e ! nat idx;
            docLen = ofNat (length (tokenize (Content doc @ '' '' @ Title doc)))
        in case countOccurrences tok (Content doc @ '' '' @ Title doc) of
             None \<Rightarrow> Inl NoReturn
           | Some tf \<Rightarrow>
               scoreLoop e tok rest
                 (scores(idx \<mapsto> fadd (getScore scores idx)
                    (fmul (fmul idf (tfNorm (ofNat tf) docLen avgLen k1 b)) boost)))
                 idf avgLen k1 b boost)"

definition scoreToken :: "Engine \<Rightarrow> string \<Rightarrow> string list \<Rightarrow> scoreMap \<Rightarrow> float64 \<Rightarrow> float64
    \<Rightarrow> float64 \<Rightarrow> float64 \<Rightarrow> float64 \<Rightarrow> fault + scoreMap" where
  "scoreToken e tok queryTokens scores N avgLen k1 b boost =
     (case map_of (index e) tok of
        None \<Rightarrow> Inr scores
      | Some ps \<Rightarrow> scoreLoop e tok ps scores (idfOf N (ofNat (length ps))) avgLen k1 b boost)"

subsection \<open>Search\<close>

text \<open>The prefix loop of \<open>Search\<close> for one query token, over the keys of the index.\<close>

fun prefixLoop :: "Engine \<Rightarrow> string \<Rightarrow> string list \<Rightarrow> string list \<Rightarrow> scoreMap \<Rightarrow> float64
    \<Rightarrow> float64 \<Rightarrow> float64 \<Rightarrow> float64 \<Rightarrow> fault + scoreMap" where
  "prefixLoop e tok tokens [] scores N avgLen k1 b = Inr scores"
| "prefixLoop e tok tokens (indexedTok # keys) scores N avgLen k1 b =
     (if indexedTok \<noteq> tok \<and> HasPrefix indexedTok tok \<and> length tok \<ge> 3 then
        case scoreToken e indexedTok tokens scores N avgLen k1 b (Fin (7/10)) of
          Inl f \<Rightarrow> Inl f
        | Inr scores' \<Rightarrow> prefixLoop e tok tokens keys scores' N avgLen k1 b
      else prefixLoop e tok tokens keys scores N avgLen k1 b)"

text \<open>The loop of \<open>Search\<close> over the query tokens: the exact match, then the prefix
  matches.\<close>

fun tokenLoop :: "Engine \<Rightarrow> string list \<Rightarrow> string list \<Rightarrow> scoreMap \<Rightarrow> float64 \<Rightarrow> float64
    \<Rightarrow> float64 \<Rightarrow> float64 \<Rightarrow> fault + scoreMap" where
  "tokenLoop e [] tokens scores N avgLen k1 b = Inr scores"
| "tokenLoop e (tok # rest) tokens scores N avgLen k1 b =
     (case scoreToken e tok tokens scores N avgLen k1 b (Fin 1) of
        Inl f \<Rightarrow> Inl f
      | Inr scores1 \<Rightarrow>
          (case prefixLoop e tok tokens (map fst (index e)) scores1 N avgLen k1 b of
             Inl f \<Rightarrow> Inl f
           | Inr scores2 \<Rightarrow> tokenLoop e rest tokens scores2 N avgLen k1 b))"

text \<open>The title boost: \<open>2.0\<close> for every pair of a document and a query token contained in
  its lower-cased title.\<close>

fun boostTokens :: "string \<Rightarrow> string list \<Rightarrow> int \<Rightarrow> scoreMap \<Rightarrow> scoreMap" where
  "boostTokens titleLower [] idx scores = scores"
| "boostTokens titleLower (tok # toks) idx scores =
     boostTokens titleLower toks idx
       (if Contains titleLower tok then scores(idx \<mapsto> fadd (getScore scores idx) (Fin 2))
        else scores)"

fun boostDocs :: "Doc list \<Rightarrow> int \<Rightarrow> string list \<Rightarrow> scoreMap \<Rightarrow> scoreMap" where
  "boostDocs [] idx tokens scores = scores"
| "boostDocs (doc # ds) idx tokens scores =
     boostDocs ds (idx + 1) tokens (boostTokens (ToLower (Title doc)) tokens idx scores)"

text \<open>The score map of a query when the ranking starts: \<open>N\<close>, \<open>avgLen\<close>, \<open>k1\<close> and \<open>b\<close> as
  \<open>Search\<close> sets them.\<close>

definition rawScores :: "Engine \<Rightarrow> string list \<Rightarrow> fault + scoreMap" where
  "rawScores e tokens =
     (case tokenLoop e tokens tokens Map.empty (ofNat (length (docs e))) (avgDocLen e)
             (Fin (3/2)) (Fin (3/4)) of
        Inl f \<Rightarrow> Inl f
      | Inr scores \<Rightarrow> Inr (boostDocs (docs e) 0 tokens scores))"

text \<open>\<open>for idx, score := range scores\<close>: Go visits the keys of a map in an unspecified
  order. The order is the argument \<open>order\<close>; \<open>rangeOrder\<close> says that it is an order Go may
  choose, every key once. A \<open>scoredDoc\<close> is the pair of \<open>idx\<close> and \<open>score\<close>.\<close>

definition rangeOrder :: "scoreMap \<Rightarrow> int list \<Rightarrow> bool" where
  "rangeOrder scores order = (distinct order \<and> set order = dom scores)"

definition collect :: "scoreMap \<Rightarrow> int list \<Rightarrow> (int \<times> float64) list" where
  "collect scores order = List.map_filter (\<lambda>idx. map_option (Pair idx) (scores idx)) order"

text \<open>The insertion sort: the inner loop moves \<open>ranked[j]\<close> left while its score is greater
  than its left neighbour's, the outer loop runs it for \<open>i = 1, ..., len(ranked) - 1\<close>.\<close>

primrec sortInner :: "nat \<Rightarrow> (int \<times> float64) list \<Rightarrow> (int \<times> float64) list" where
  "sortInner 0 ranked = ranked"
| "sortInner (Suc j) ranked =
     (if fgt (snd (ranked ! Suc j)) (snd (ranked ! j))
      then sortInner j (ranked[Suc j := ranked ! j, j := ranked ! Suc j])
      else ranked)"

definition insertionSort :: "(int \<times> float64) list \<Rightarrow> (int \<times> float64) list" where
  "insertionSort ranked = foldl (\<lambda>r i. sortInner i r) ranked [1..<length ranked]"

subsection \<open>Excerpt extractor\<close>

text \<open>The window loop of \<open>extractExcerpt\<close>, with \<open>windowSize = 200\<close> and step 50; it
  returns \<open>bestPos\<close>.\<close>

function windowLoop :: "string \<Rightarrow> string list \<Rightarrow> nat \<Rightarrow> nat \<Rightarrow> nat \<Rightarrow> nat" where
  "windowLoop lower tokens i bestPos bestHits =
     (if int i < int (length lower) - 200 then
        let endPos = (if i + 200 > length lower then length lower else i + 200);
            window = take (endPos - i) (drop i lower);
            hits = length (filter (\<lambda>tok. Contains window tok) tokens)
        in if hits > bestHits then windowLoop lower tokens (i + 50) i hits
           else windowLoop lower tokens (i + 50) bestPos bestHits
      else bestPos)"
  by pat_completeness auto
termination
  by (relation "measure (\<lambda>(lower, tokens, i, bestPos, bestHits). length lower - i)") auto

declare windowLoop.simps [simp del]

definition extractExcerpt :: "string \<Rightarrow> string list \<Rightarrow> int \<Rightarrow> fault + string" where
  "extractExcerpt content tokens maxLen =
     (if length content = 0 then Inr []
      else
        let lower = ToLower content;
            bestPos = windowLoop lower tokens 0 0 0;
            start = (if bestPos > 50 then bestPos - 50 else bestPos);
            end0 = int start + maxLen;
            endPos = (if end0 > int (length content) then int (length content) else end0)
        in if endPos < int start then Inl SliceBoundsOutOfRange
           else
             let excerpt = TrimSpace (take (nat endPos - start) (drop start content));
                 excerpt1 = (if start > 0 then ''...'' @ excerpt else excerpt);
                 excerpt2 = (if endPos < int (length content) then excerpt1 @ ''...''
                             else excerpt1)
             in Inr excerpt2)"

subsection \<open>Results\<close>

text \<open>The loop of \<open>Search\<close> that builds the results, over the first \<open>topK\<close> ranked
  candidates.\<close>

fun resultsLoop :: "Engine \<Rightarrow> string list \<Rightarrow> float64 \<Rightarrow> (int \<times> float64) list
    \<Rightarrow> fault + Result list" where
  "resultsLoop e tokens maxScore [] = Inr []"
| "resultsLoop e tokens maxScore (sd # rest) =
     (if fst sd < 0 \<or> int (length (docs e)) \<le> fst sd then Inl IndexOutOfRange
      else
        let doc = docs e ! nat (fst sd);
            normalizedScore = (if fgt maxScore (Fin 0) then fdiv (snd sd) maxScore else Fin 0)
        in case extractExcerpt (Content doc) tokens 300 of
             Inl f \<Rightarrow> Inl f
           | Inr ex \<Rightarrow>
               (case resultsLoop e tokens maxScore rest of
                  Inl f \<Rightarrow> Inl f
                | Inr results \<Rightarrow>
                    Inr (\<lparr>rTitle = Title doc, rURL = URL doc, Excerpt = ex,
                          Score = normalizedScore\<rparr> # results)))"

text \<open>\<open>Search\<close>; \<open>make([]Result, 0, topK)\<close> panics for a negative \<open>topK\<close>.\<close>

definition Search :: "Engine \<Rightarrow> string \<Rightarrow> int \<Rightarrow> int list \<Rightarrow> fault + Result list" where
  "Search e query topK order =
     (if length (docs e) = 0 then Inr []
      else
        let tokens = tokenize query
        in if length tokens = 0 then Inr []
           else
             case rawScores e tokens of
               Inl f \<Rightarrow> Inl f
             | Inr scores \<Rightarrow>
                 let ranked = insertionSort (collect scores order)
                 in if topK < 0 then Inl MakeSliceCapOutOfRange
                    else
                      let maxScore = (case ranked of [] \<Rightarrow> Fin 0 | sd # _ \<Rightarrow> snd sd)
                      in resultsLoop e tokens maxScore (take (nat topK) ranked))"

subsection \<open>Persistence\<close>

text \<open>\<open>LoadCache\<close>. \<open>os.ReadFile\<close> and \<open>json.Unmarshal\<close> (into a \<open>cacheFile\<close>, of which
  only the field \<open>Docs\<close> is read) are functions of the standard library; they are the
  arguments \<open>readFile\<close> and \<open>unmarshal\<close>. The result is the error returned, \<open>None\<close> for
  \<open>nil\<close>, and the state of the engine after the call.\<close>

fun addDocs :: "Doc list \<Rightarrow> Engine \<Rightarrow> Engine" where
  "addDocs [] e = e"
| "addDocs (doc # ds) e = addDocs ds (AddDoc doc e)"

definition LoadCache :: "(string \<Rightarrow> 'err + string) \<Rightarrow> (string \<Rightarrow> 'err + Doc list) \<Rightarrow> string
    \<Rightarrow> Engine \<Rightarrow> 'err option \<times> Engine" where
  "LoadCache readFile unmarshal path e =
     (case readFile path of
        Inl err \<Rightarrow> (Some err, e)
      | Inr data \<Rightarrow>
          (case unmarshal data of
             Inl err \<Rightarrow> (Some err, e)
           | Inr cfDocs \<Rightarrow> (None, addDocs cfDocs e)))"

subsection \<open>The insertion sort, seen from the right end\<close>

text \<open>\<open>insertDesc x ys\<close> is what the inner loop of the insertion sort does to the sorted
  part \<open>rev ys\<close> of the slice and the element \<open>x\<close> at its right: \<open>x\<close> moves left over every
  element whose score is less than its own. It is used in the proofs only.\<close>

fun insertDesc :: "(int \<times> float64) \<Rightarrow> (int \<times> float64) list \<Rightarrow> (int \<times> float64) list" where
  "insertDesc x [] = [x]"
| "insertDesc x (y # ys) = (if fgt (snd x) (snd y) then y # insertDesc x ys else x # y # ys)"

subsection \<open>The scores as real numbers\<close>

text \<open>The formulas of the specification, over the reals: the inverse document frequency
  \<open>ln((N - df + 0.5)/(df + 0.5) + 1)\<close> and the normalised term frequency
  \<open>tf*(k1+1)/(tf + k1*(1 - b + b*docLength/avgDocLength))\<close> with \<open>k1 = 1.5\<close> and
  \<open>b = 0.75\<close>.\<close>

definition spec_idf :: "real \<Rightarrow> real \<Rightarrow> real" where
  "spec_idf N df = ln ((N - df + 0.5) / (df + 0.5) + 1)"

definition spec_normalizedTF :: "real \<Rightarrow> real \<Rightarrow> real \<Rightarrow> real" where
  "spec_normalizedTF tf docLength avgDocLength =
     tf * (1.5 + 1) / (tf + 1.5 * (1 - 0.75 + 0.75 * docLength / avgDocLength))"

text \<open>What \<open>scoreToken\<close> computes for the document in slot \<open>idx\<close>: \<open>docLen\<close>, the number of
  tokens of content and title, and \<open>tf\<close>, the result of \<open>countOccurrences\<close> on them.\<close>

definition docLenOf :: "Engine \<Rightarrow> int \<Rightarrow> nat" where
  "docLenOf e idx =
     length (tokenize (Content (docs e ! nat idx) @ '' '' @ Title (docs e ! nat idx)))"

definition tfOf :: "Engine \<Rightarrow> string \<Rightarrow> int \<Rightarrow> nat" where
  "tfOf e tok idx =
     (case countOccurrences tok (Content (docs e ! nat idx) @ '' '' @ Title (docs e ! nat idx)) of
        Some n \<Rightarrow> n
      | None \<Rightarrow> 0)"

text \<open>The running score of a slot as a real number, and the score maps all of whose
  values are finite.\<close>

definition realScore :: "scoreMap \<Rightarrow> int \<Rightarrow> real" where
  "realScore scores idx = (case getScore scores idx of Fin x \<Rightarrow> x | _ \<Rightarrow> 0)"

definition finiteScores :: "scoreMap \<Rightarrow> bool" where
  "finiteScores scores = (\<forall>idx v. scores idx = Some v \<longrightarrow> (\<exists>x. v = Fin x))"

text \<open>The sum of what one call of \<open>scoreToken\<close> for the indexed term \<open>u\<close> adds to slot
  \<open>idx\<close>, before the weight: one \<open>idf * tfNorm\<close> for every entry \<open>idx\<close> of the postings of
  \<open>u\<close>, with average length \<open>a\<close>.\<close>

definition termScore :: "Engine \<Rightarrow> real \<Rightarrow> string \<Rightarrow> int \<Rightarrow> real" where
  "termScore e a u idx =
     real (count_list (postings (index e) u) idx) *
       (spec_idf (real (length (docs e))) (real (length (postings (index e) u))) *
        spec_normalizedTF (real (tfOf e u idx)) (real (docLenOf e idx)) a)"

text \<open>The indexed terms that the prefix loop scores for the query token \<open>tok\<close>.\<close>

definition prefixTerms :: "string \<Rightarrow> string list \<Rightarrow> string list" where
  "prefixTerms tok keys = filter (\<lambda>u. u \<noteq> tok \<and> HasPrefix u tok \<and> length tok \<ge> 3) keys"

text \<open>The closed form of the score that the token loop of \<open>Search\<close> gives slot \<open>idx\<close>:
  for every query token of the list, the exact match with weight 1 and the prefix matches
  with weight 0.7; and the title boost of the slot.\<close>

definition queryScore :: "Engine \<Rightarrow> real \<Rightarrow> string list \<Rightarrow> int \<Rightarrow> real" where
  "queryScore e a tokens idx =
     (\<Sum>tok\<leftarrow>tokens. termScore e a tok idx * 1 +
        (\<Sum>u\<leftarrow>prefixTerms tok (map fst (index e)). termScore e a u idx * (7/10)))"

definition titleBonus :: "Engine \<Rightarrow> string list \<Rightarrow> int \<Rightarrow> real" where
  "titleBonus e tokens idx =
     (if 0 \<le> idx \<and> idx < int (length (docs e))
      then 2 * real (length (filter (\<lambda>tok. Contains (ToLower (Title (docs e ! nat idx))) tok) tokens))
      else 0)"

subsection \<open>Invariants and example inputs\<close>

text \<open>Every entry of every postings list is the index of a stored document.\<close>

definition slotsValid :: "Engine \<Rightarrow> bool" where
  "slotsValid e =
     list_all (\<lambda>entry. list_all (\<lambda>i. 0 \<le> i \<and> i < int (length (docs e))) (snd entry)) (index e)"

definition docA :: Doc where
  "docA = \<lparr>ID = ''u1'', Title = ''Foo'', URL = ''u1'', Content = ''foo bar'', Tags = []\<rparr>"

definition docB :: Doc where
  "docB = \<lparr>ID = ''u1'', Title = ''Baz'', URL = ''u1'', Content = ''qux'', Tags = []\<rparr>"

definition eA :: Engine where
  "eA = AddDoc docA NewEngine"

definition docRigid :: Doc where
  "docRigid = \<lparr>ID = ''u1'', Title = [], URL = ''u1'', Content = ''rigidbody'', Tags = []\<rparr>"

definition eRigid :: Engine where
  "eRigid = AddDoc docRigid NewEngine"

definition docFive :: Doc where
  "docFive = \<lparr>ID = ''a'', Title = [], URL = ''a'', Content = ''foo foo foo foo foo'', Tags = []\<rparr>"

definition docOne :: Doc where
  "docOne = \<lparr>ID = ''b'', Title = [], URL = ''b'', Content = ''foo bar bar bar bar'', Tags = []\<rparr>"

definition eDup :: Engine where
  "eDup = AddDoc docOne (AddDoc docFive (AddDoc docOne (AddDoc docFive NewEngine)))"

text \<open>A document that has the term \<open>physics\<close> in its tags only.\<close>

definition docTag :: Doc where
  "docTag = \<lparr>ID = ''u1'', Title = [], URL = ''u1'', Content = ''hello world'',
              Tags = [''physics'']\<rparr>"

definition eTag :: Engine where
  "eTag = AddDoc docTag NewEngine"

definition tagScores :: scoreMap where
  "tagScores = [0 \<mapsto> Fin 0]"

text \<open>Two documents whose titles contain \<open>physics\<close> inside a longer word.\<close>

definition docP0 :: Doc where
  "docP0 = \<lparr>ID = ''p0'', Title = ''xphysics'', URL = ''p0'', Content = ''first'', Tags = []\<rparr>"

definition docP1 :: Doc where
  "docP1 = \<lparr>ID = ''p1'', Title = ''xphysics'', URL = ''p1'', Content = ''second'', Tags = []\<rparr>"

definition eTie :: Engine where
  "eTie = AddDoc docP1 (AddDoc docP0 NewEngine)"

definition tieScores :: scoreMap where
  "tieScores = [0 \<mapsto> Fin 2, 1 \<mapsto> Fin 2]"

definition resultP0 :: Result where
  "resultP0 = \<lparr>rTitle = ''xphysics'', rURL = ''p0'', Excerpt = ''first'', Score = Fin 1\<rparr>"

definition resultP1 :: Result where
  "resultP1 = \<lparr>rTitle = ''xphysics'', rURL = ''p1'', Excerpt = ''second'', Score = Fin 1\<rparr>"

text \<open>The values that are not infinite.\<close>

definition notInf :: "float64 \<Rightarrow> bool" where
  "notInf v = (v \<noteq> PInf \<and> v \<noteq> NInf)"

definition notInfScores :: "scoreMap \<Rightarrow> bool" where
  "notInfScores scores = (\<forall>idx v. scores idx = Some v \<longrightarrow> notInf v)"

subsection \<open>The excerpt as the specification describes it\<close>

text \<open>The description of the specification, for the comparison with \<open>extractExcerpt\<close>: the
  windows of 200 characters at the positions 0, 50, 100, ... (as many as the code looks
  at), the number of distinct query tokens in a window, the first position with the
  highest number, the start 50 characters before it and not before 0, the slice of
  \<open>maxLength\<close> characters from the start, and the two marks \<open>...\<close>.\<close>

definition spec_windowHits :: "string \<Rightarrow> string list \<Rightarrow> nat \<Rightarrow> nat" where
  "spec_windowHits lower tokens pos =
     length (remdups (filter (\<lambda>tok. Contains (take 200 (drop pos lower)) tok) tokens))"

definition spec_positions :: "nat \<Rightarrow> nat list" where
  "spec_positions n = map (\<lambda>k. 50 * k) [0..<(n - 200 + 49) div 50]"

definition spec_bestPos :: "string \<Rightarrow> string list \<Rightarrow> nat" where
  "spec_bestPos lower tokens =
     (let ps = spec_positions (length lower);
          m = fold max (map (spec_windowHits lower tokens) ps) 0
      in case filter (\<lambda>p. spec_windowHits lower tokens p = m) ps of [] \<Rightarrow> 0 | p # _ \<Rightarrow> p)"

definition spec_excerpt :: "string \<Rightarrow> string list \<Rightarrow> nat \<Rightarrow> string" where
  "spec_excerpt body tokens maxLength =
     (let pos = spec_bestPos (ToLower body) tokens;
          start = pos - 50;
          slice = take maxLength (drop start body)
      in (if start \<noteq> 0 then ''...'' else []) @ slice @
         (if start + maxLength < length body then ''...'' else []))"

subsection \<open>What \<open>extractExcerpt\<close> computes\<close>

text \<open>The best position that \<open>extractExcerpt\<close> finds, the number of hits of the window at a
  position (every entry of the token list counts), and the excerpt cut at a given
  start.\<close>

definition bestPosOf :: "string \<Rightarrow> string list \<Rightarrow> nat" where
  "bestPosOf content tokens = windowLoop (ToLower content) tokens 0 0 0"

definition hitsAt :: "string \<Rightarrow> string list \<Rightarrow> nat \<Rightarrow> nat" where
  "hitsAt lower tokens i = length (filter (\<lambda>tok. Contains (take 200 (drop i lower)) tok) tokens)"

definition excerptFrom :: "string \<Rightarrow> nat \<Rightarrow> nat \<Rightarrow> string" where
  "excerptFrom content start n =
     (if start > 0 then ''...'' else []) @ TrimSpace (take n (drop start content)) @
     (if start + n < length content then ''...'' else [])"

text \<open>A body of 310 characters with \<open>bar\<close> at position 0 and \<open>foo\<close> at position 250.\<close>

definition longBody :: string where
  "longBody =
     ''barxxxxxxxxxxxxxxxxxxxxxxxxxxxxxxxxxxxxxxxxxxxxxxxxxxxxxxxxx'' @
     ''xxxxxxxxxxxxxxxxxxxxxxxxxxxxxxxxxxxxxxxxxxxxxxxxxxxxxxxxxxxx'' @
     ''xxxxxxxxxxxxxxxxxxxxxxxxxxxxxxxxxxxxxxxxxxxxxxxxxxxxxxxxxxxx'' @
     ''xxxxxxxxxxxxxxxxxxxxxxxxxxxxxxxxxxxxxxxxxxxxxxxxxxxxxxxxxxxx'' @
     ''xxxxxxxxxxfooxxxxxxxxxxxxxxxxxxxxxxxxxxxxxxxxxxxxxxxxxxxxxxx'' @
     ''xxxxxxxxxx''"

section \<open>Properties\<close>

subsection \<open>Evaluation of strings and tokens\<close>

lemmas string_defs = lowerLetters_def upperLetters_def digitChars_def IsLetter_def IsDigit_def
  toLowerRune_def ToLower_def stopWords_def flush_def tokenize_def HasPrefix_def Contains_def
  IsSpace_def TrimSpace_def

lemmas engine_defs = AddDoc_def NewEngine_def reindexDoc_def postings_def

subsection \<open>The document store\<close>


lemma findURL_Some:
  "findURL ds u i = Some j \<Longrightarrow>
     i \<le> j \<and> j - i < length ds \<and> URL (ds ! (j - i)) = u \<and> (\<forall>k < j - i. URL (ds ! k) \<noteq> u)"
proof (induction ds arbitrary: i)
  case Nil
  then show ?case by simp
next
  case (Cons d ds)
  show ?case
  proof (cases "URL d = u")
    case True
    with Cons.prems show ?thesis by simp
  next
    case False
    with Cons.prems have f: "findURL ds u (Suc i) = Some j" by simp
    from Cons.IH [OF f] have ih: "Suc i \<le> j" "j - Suc i < length ds"
      "URL (ds ! (j - Suc i)) = u" "\<forall>k < j - Suc i. URL (ds ! k) \<noteq> u" by auto
    have e: "j - i = Suc (j - Suc i)" using ih(1) by arith
    show ?thesis using ih False unfolding e
      by (auto simp: nth_Cons split: nat.splits)
  qed
qed

lemma findURL_Some0:
  "findURL ds u 0 = Some j \<Longrightarrow> j < length ds \<and> URL (ds ! j) = u \<and> (\<forall>k < j. URL (ds ! k) \<noteq> u)"
  using findURL_Some [of ds u 0 j] by simp







subsection \<open>The postings\<close>



lemma keys_reindexLoop:
  "fst ` set (reindexLoop toks seen idx ix) = fst ` set ix \<union> (set toks - seen)"
  by (induction toks seen idx ix rule: reindexLoop.induct) (auto simp: AList.dom_update)

lemma distinct_reindexLoop:
  "distinct (map fst ix) \<Longrightarrow> distinct (map fst (reindexLoop toks seen idx ix))"
  by (induction toks seen idx ix rule: reindexLoop.induct) (auto simp: AList.distinct_update)



subsection \<open>Valid slots\<close>

lemma slotsValid_iff:
  "slotsValid e \<longleftrightarrow> (\<forall>t ps i. (t, ps) \<in> set (index e) \<longrightarrow> i \<in> set ps \<longrightarrow> 0 \<le> i \<and> i < int (length (docs e)))"
  by (auto simp: slotsValid_def list_all_iff)

lemma set_AList_update: "p \<in> set (AList.update k v al) \<Longrightarrow> p = (k, v) \<or> p \<in> set al"
  by (induction al) (auto split: if_splits)

lemma postings_entries: "i \<in> set (postings ix t) \<Longrightarrow> \<exists>ps. (t, ps) \<in> set ix \<and> i \<in> set ps"
proof -
  assume i: "i \<in> set (postings ix t)"
  then obtain ps where ps: "map_of ix t = Some ps" "i \<in> set ps"
    by (cases "map_of ix t") (simp_all add: postings_def)
  from map_of_SomeD [OF ps(1)] ps(2) show ?thesis by blast
qed

lemma reindexLoop_entries:
  assumes "\<forall>t ps i. (t, ps) \<in> set ix \<longrightarrow> i \<in> set ps \<longrightarrow> P i" and "P idx"
  shows "\<forall>t ps i. (t, ps) \<in> set (reindexLoop toks seen idx ix) \<longrightarrow> i \<in> set ps \<longrightarrow> P i"
  using assms
proof (induction toks seen idx ix rule: reindexLoop.induct)
  case (1 seen idx ix)
  then show ?case by simp
next
  case (2 tok toks seen idx ix)
  show ?case
  proof (cases "tok \<in> seen")
    case True
    with 2 show ?thesis by simp
  next
    case False
    have upd: "\<forall>t ps i. (t, ps) \<in> set (AList.update tok (postings ix tok @ [idx]) ix) \<longrightarrow>
        i \<in> set ps \<longrightarrow> P i"
    proof (intro allI impI)
      fix t ps i
      assume m: "(t, ps) \<in> set (AList.update tok (postings ix tok @ [idx]) ix)" and i: "i \<in> set ps"
      from set_AList_update [OF m] show "P i"
      proof
        assume "(t, ps) = (tok, postings ix tok @ [idx])"
        then have "i \<in> set (postings ix tok) \<or> i = idx" using i by auto
        then show ?thesis using postings_entries [of i ix tok] "2.prems" by blast
      next
        assume "(t, ps) \<in> set ix"
        then show ?thesis using i "2.prems"(1) by blast
      qed
    qed
    from "2.IH"(2) [OF False upd "2.prems"(2)] False show ?thesis by simp
  qed
qed

lemma slotsValid_AddDoc:
  assumes "slotsValid e"
  shows "slotsValid (AddDoc doc e)"
proof (cases "findURL (docs e) (URL doc) 0")
  case None
  let ?P = "\<lambda>i. 0 \<le> i \<and> i < int (Suc (length (docs e)))"
  have old: "\<forall>t ps i. (t, ps) \<in> set (index e) \<longrightarrow> i \<in> set ps \<longrightarrow> ?P i"
    using assms by (fastforce simp: slotsValid_iff)
  have new: "?P (int (length (docs e)))" by simp
  from reindexLoop_entries [where P = ?P, OF old new] None show ?thesis
    by (simp add: slotsValid_iff AddDoc_def reindexDoc_def Let_def)
next
  case (Some j)
  let ?P = "\<lambda>i. 0 \<le> i \<and> i < int (length (docs e))"
  have old: "\<forall>t ps i. (t, ps) \<in> set (index e) \<longrightarrow> i \<in> set ps \<longrightarrow> ?P i"
    using assms by (auto simp: slotsValid_iff)
  have new: "?P (int j)" using findURL_Some0 [OF Some] by simp
  from reindexLoop_entries [where P = ?P, OF old new] Some show ?thesis
    by (simp add: slotsValid_iff AddDoc_def reindexDoc_def Let_def)
qed

lemma slotsValid_NewEngine: "slotsValid NewEngine"
  by (simp add: slotsValid_def NewEngine_def)

lemma reachable_slotsValid: "reachable e \<Longrightarrow> slotsValid e"
  by (induction rule: reachable.induct) (simp_all add: slotsValid_NewEngine slotsValid_AddDoc)

lemma slotsValid_addDocs: "slotsValid e \<Longrightarrow> slotsValid (addDocs ds e)"
  by (induction ds arbitrary: e) (simp_all add: slotsValid_AddDoc)

lemma slotsValid_AddResults: "slotsValid e \<Longrightarrow> slotsValid (AddResults rs e)"
  by (induction rs arbitrary: e) (simp_all add: slotsValid_AddDoc)

lemma slotsValid_LoadCache: "slotsValid e \<Longrightarrow> slotsValid (snd (LoadCache rf um p e))"
  by (simp add: LoadCache_def slotsValid_addDocs split: sum.splits)

lemma reachable_addDocs: "reachable e \<Longrightarrow> reachable (addDocs ds e)"
  by (induction ds arbitrary: e) (simp_all add: reachable_add)

subsection \<open>The loop of \<open>countOccurrences\<close> ends for a non-empty token\<close>

lemma Index_Some: "Index s sub = Some i \<Longrightarrow> i + length sub \<le> length s \<and> prefix sub (drop i s)"
proof (induction s arbitrary: i)
  case Nil
  then show ?case by (simp split: if_splits)
next
  case (Cons c cs)
  show ?case
  proof (cases "prefix sub (c # cs)")
    case True
    with Cons.prems show ?thesis by (auto dest: prefix_length_le)
  next
    case False
    with Cons.prems obtain j where j: "Index cs sub = Some j" "i = Suc j" by auto
    from Cons.IH [OF j(1)] j(2) show ?thesis by simp
  qed
qed

lemma countLoop_returns:
  assumes "tok \<noteq> []"
  shows "\<exists>n. countLoop tok lower idx cnt = Some n"
proof (induction "length lower - idx" arbitrary: idx cnt rule: less_induct)
  case less
  show ?case
  proof (cases "Index (drop idx lower) tok")
    case None
    then show ?thesis by (subst countLoop.simps) simp
  next
    case (Some i)
    from Index_Some [OF Some] have le: "i + length tok \<le> length lower - idx" by simp
    have pos: "0 < length tok" using assms by simp
    have "length lower - (idx + (i + length tok)) < length lower - idx"
      using le pos by arith
    from less [OF this] obtain n where
      "countLoop tok lower (idx + (i + length tok)) (cnt + 1) = Some n" by blast
    then show ?thesis using Some by (subst countLoop.simps) simp
  qed
qed

lemma countOccurrences_returns: "tok \<noteq> [] \<Longrightarrow> \<exists>n. countOccurrences tok text = Some n"
  by (simp add: countOccurrences_def countLoop_returns)

subsection \<open>The insertion sort\<close>

lemma length_insertDesc: "length (insertDesc x ys) = Suc (length ys)"
  by (induction ys) auto

lemma mset_insertDesc: "mset (insertDesc x ys) = add_mset x (mset ys)"
  by (induction ys) auto

lemma drop_update_at: "n < length xs \<Longrightarrow> drop n (xs[n := y]) = y # drop (Suc n) xs"
  by (simp add: upd_conv_take_nth_drop)

lemma sortInner_insertDesc:
  "j < length xs \<Longrightarrow>
     sortInner j xs = rev (insertDesc (xs ! j) (rev (take j xs))) @ drop (Suc j) xs"
proof (induction j arbitrary: xs)
  case 0
  then show ?case by (simp add: Cons_nth_drop_Suc)
next
  case (Suc j)
  let ?x = "xs ! Suc j" and ?y = "xs ! j"
  have j: "j < length xs" using Suc.prems by simp
  have tk: "rev (take (Suc j) xs) = ?y # rev (take j xs)"
    using j by (simp add: take_Suc_conv_app_nth)
  show ?case
  proof (cases "fgt (snd ?x) (snd ?y)")
    case False
    have "take (Suc j) xs @ ?x # drop (Suc (Suc j)) xs = xs"
      using Suc.prems by (simp add: Cons_nth_drop_Suc)
    then show ?thesis using False tk j by (simp add: take_Suc_conv_app_nth)
  next
    case True
    let ?xs' = "xs[Suc j := ?y, j := ?x]"
    have l: "j < length ?xs'" using j by simp
    have n: "?xs' ! j = ?x" using j by simp
    have t: "take j ?xs' = take j xs" by simp
    have d: "drop (Suc j) ?xs' = ?y # drop (Suc (Suc j)) xs"
      using Suc.prems by (simp add: drop_update_at)
    have "sortInner (Suc j) xs = sortInner j ?xs'" using True by simp
    also have "\<dots> = rev (insertDesc ?x (rev (take j xs))) @ ?y # drop (Suc (Suc j)) xs"
      using Suc.IH [OF l] n t d by simp
    finally show ?thesis using True tk by simp
  qed
qed

lemma length_sortInner: "j < length xs \<Longrightarrow> length (sortInner j xs) = length xs"
  by (simp add: sortInner_insertDesc length_insertDesc)

lemma sortLoop_insertDesc:
  "i \<le> length xs \<Longrightarrow>
     foldl (\<lambda>r i. sortInner i r) xs [i..<length xs] =
     rev (foldl (\<lambda>acc x. insertDesc x acc) (rev (take i xs)) (drop i xs))"
proof (induction "length xs - i" arbitrary: xs i)
  case 0
  then show ?case by simp
next
  case (Suc n)
  then have i: "i < length xs" by simp
  let ?xs1 = "sortInner i xs"
  have l1: "length ?xs1 = length xs" using i by (rule length_sortInner)
  have c: "?xs1 = rev (insertDesc (xs ! i) (rev (take i xs))) @ drop (Suc i) xs"
    using i by (rule sortInner_insertDesc)
  have li: "length (rev (insertDesc (xs ! i) (rev (take i xs)))) = Suc i"
    using i by (simp add: length_insertDesc)
  have t1: "rev (take (Suc i) ?xs1) = insertDesc (xs ! i) (rev (take i xs))"
    using li by (simp add: c)
  have d1: "drop (Suc i) ?xs1 = drop (Suc i) xs"
    using li by (simp add: c)
  have n: "n = length ?xs1 - Suc i" using Suc.hyps(2) l1 by simp
  have le: "Suc i \<le> length ?xs1" using i l1 by simp
  have "foldl (\<lambda>r i. sortInner i r) xs [i..<length xs] =
        foldl (\<lambda>r i. sortInner i r) ?xs1 [Suc i..<length ?xs1]"
    using i l1 by (simp add: upt_conv_Cons)
  also have "\<dots> = rev (foldl (\<lambda>acc x. insertDesc x acc) (rev (take (Suc i) ?xs1)) (drop (Suc i) ?xs1))"
    using Suc.hyps(1) [OF n le] .
  also have "\<dots> = rev (foldl (\<lambda>acc x. insertDesc x acc) (rev (take i xs)) (drop i xs))"
    unfolding t1 d1 using i by (simp add: Cons_nth_drop_Suc [symmetric])
  finally show ?case .
qed

lemma insertionSort_insertDesc:
  "insertionSort xs = rev (foldl (\<lambda>acc x. insertDesc x acc) [] xs)"
proof (cases xs)
  case Nil
  then show ?thesis by (simp add: insertionSort_def)
next
  case (Cons x xs')
  then have "1 \<le> length xs" by simp
  from sortLoop_insertDesc [OF this] Cons show ?thesis
    by (simp add: insertionSort_def)
qed

lemma mset_foldl_insertDesc:
  "mset (foldl (\<lambda>acc x. insertDesc x acc) acc xs) = mset acc + mset xs"
  by (induction xs arbitrary: acc) (simp_all add: mset_insertDesc)

lemma mset_insertionSort: "mset (insertionSort xs) = mset xs"
  by (simp add: insertionSort_insertDesc mset_foldl_insertDesc)

lemma set_insertionSort: "set (insertionSort xs) = set xs"
  using mset_insertionSort [of xs] by (metis set_mset_mset)

lemma length_insertionSort: "length (insertionSort xs) = length xs"
  using mset_insertionSort [of xs] by (metis size_mset)

lemma fgt_irrefl: "\<not> fgt x x"
  by (cases x) auto

lemma filter_insertDesc:
  "filter (\<lambda>sd. snd sd = v) (insertDesc x ys) = filter (\<lambda>sd. snd sd = v) (x # ys)"
proof (induction ys)
  case Nil
  then show ?case by simp
next
  case (Cons y ys)
  show ?case
  proof (cases "fgt (snd x) (snd y)")
    case True
    then have ne: "snd x \<noteq> snd y" using fgt_irrefl by metis
    then show ?thesis using True Cons by auto
  next
    case False
    then show ?thesis by simp
  qed
qed

lemma filter_foldl_insertDesc:
  "filter (\<lambda>sd. snd sd = v) (foldl (\<lambda>acc x. insertDesc x acc) acc xs) =
     filter (\<lambda>sd. snd sd = v) (rev xs @ acc)"
proof (induction xs arbitrary: acc)
  case Nil
  then show ?case by simp
next
  case (Cons x xs)
  have "filter (\<lambda>sd. snd sd = v) (foldl (\<lambda>acc x. insertDesc x acc) acc (x # xs)) =
        filter (\<lambda>sd. snd sd = v) (rev xs @ insertDesc x acc)"
    using Cons [of "insertDesc x acc"] by simp
  also have "\<dots> = filter (\<lambda>sd. snd sd = v) (rev xs @ x # acc)"
    by (simp only: filter_append filter_insertDesc)
  finally show ?case by simp
qed

lemma insertionSort_stable:
  "filter (\<lambda>sd. snd sd = v) (insertionSort xs) = filter (\<lambda>sd. snd sd = v) xs"
  by (simp add: insertionSort_insertDesc rev_filter [symmetric] filter_foldl_insertDesc)

lemma fgt_asym: "fgt x y \<Longrightarrow> \<not> fgt y x"
  by (cases x; cases y) auto

lemma fgt_negtrans:
  "y \<noteq> NaN \<Longrightarrow> \<not> fgt x y \<Longrightarrow> \<not> fgt y z \<Longrightarrow> \<not> fgt x z"
  by (cases x; cases y; cases z) auto

lemma sorted_insertDesc:
  assumes "sorted_wrt (\<lambda>a b. \<not> fgt (snd a) (snd b)) ys" and "\<forall>y \<in> set ys. snd y \<noteq> NaN"
  shows "sorted_wrt (\<lambda>a b. \<not> fgt (snd a) (snd b)) (insertDesc x ys)"
  using assms
proof (induction ys)
  case Nil
  then show ?case by simp
next
  case (Cons y ys)
  show ?case
  proof (cases "fgt (snd x) (snd y)")
    case True
    have "\<forall>z \<in> set (insertDesc x ys). \<not> fgt (snd y) (snd z)"
    proof
      fix z assume "z \<in> set (insertDesc x ys)"
      then have "z \<in># mset (insertDesc x ys)" by simp
      then have "z = x \<or> z \<in> set ys" by (simp add: mset_insertDesc)
      then show "\<not> fgt (snd y) (snd z)" using True fgt_asym Cons.prems by auto
    qed
    then show ?thesis using True Cons by simp
  next
    case False
    have "\<forall>z \<in> set ys. \<not> fgt (snd x) (snd z)"
    proof
      fix z assume z: "z \<in> set ys"
      then have "\<not> fgt (snd y) (snd z)" using Cons.prems by simp
      moreover have "snd y \<noteq> NaN" using Cons.prems by simp
      ultimately show "\<not> fgt (snd x) (snd z)" using False fgt_negtrans by blast
    qed
    then show ?thesis using False Cons.prems by simp
  qed
qed

lemma set_insertDesc: "set (insertDesc x ys) = insert x (set ys)"
  using mset_insertDesc [of x ys] by (metis set_mset_add_mset_insert set_mset_mset)

lemma sorted_foldl_insertDesc:
  assumes "sorted_wrt (\<lambda>a b. \<not> fgt (snd a) (snd b)) acc"
    and "\<forall>y \<in> set acc \<union> set xs. snd y \<noteq> NaN"
  shows "sorted_wrt (\<lambda>a b. \<not> fgt (snd a) (snd b)) (foldl (\<lambda>acc x. insertDesc x acc) acc xs)"
  using assms
proof (induction xs arbitrary: acc)
  case Nil
  then show ?case by simp
next
  case (Cons x xs)
  have s: "sorted_wrt (\<lambda>a b. \<not> fgt (snd a) (snd b)) (insertDesc x acc)"
    using Cons.prems by (intro sorted_insertDesc) auto
  have n: "\<forall>y \<in> set (insertDesc x acc) \<union> set xs. snd y \<noteq> NaN"
    using Cons.prems by (auto simp: set_insertDesc)
  from Cons.IH [OF s n] show ?case by simp
qed

lemma insertionSort_sorted:
  assumes "\<forall>sd \<in> set xs. snd sd \<noteq> NaN"
  shows "sorted_wrt (\<lambda>a b. \<not> fgt (snd b) (snd a)) (insertionSort xs)"
proof -
  have "sorted_wrt (\<lambda>a b. \<not> fgt (snd a) (snd b)) (foldl (\<lambda>acc x. insertDesc x acc) [] xs)"
    using assms by (intro sorted_foldl_insertDesc) auto
  then show ?thesis by (simp add: insertionSort_insertDesc sorted_wrt_rev)
qed

subsection \<open>The scorer returns on valid slots\<close>

lemma flush_length: "\<forall>t \<in> set toks. 2 \<le> length t \<Longrightarrow> \<forall>t \<in> set (flush cur toks). 2 \<le> length t"
  by (simp add: flush_def)

lemma tokenizeLoop_length:
  "\<forall>t \<in> set toks. 2 \<le> length t \<Longrightarrow> \<forall>t \<in> set (tokenizeLoop s cur toks). 2 \<le> length t"
proof (induction s cur toks rule: tokenizeLoop.induct)
  case (1 current tokens)
  then show ?case using flush_length by simp
next
  case (2 r rs current tokens)
  then show ?case using flush_length [of tokens current] by (simp split: if_splits)
qed

lemma tokenize_length: "t \<in> set (tokenize s) \<Longrightarrow> 2 \<le> length t"
  using tokenizeLoop_length [of "[]" "ToLower s" "[]"] by (simp add: tokenize_def)

lemma tokenize_nonempty: "\<forall>t \<in> set (tokenize s). t \<noteq> []"
  using tokenize_length by fastforce

lemma scoreLoop_returns:
  assumes "\<forall>i \<in> set ps. 0 \<le> i \<and> i < int (length (docs e))" and "tok \<noteq> []"
  shows "\<exists>s'. scoreLoop e tok ps scores idf avgLen k1 b boost = Inr s' \<and>
              dom s' = dom scores \<union> set ps"
  using assms(1)
proof (induction ps arbitrary: scores)
  case Nil
  then show ?case by simp
next
  case (Cons idx ps)
  let ?doc = "docs e ! nat idx"
  obtain tf where tf: "countOccurrences tok (Content ?doc @ '' '' @ Title ?doc) = Some tf"
    using countOccurrences_returns [OF assms(2)] by blast
  let ?scores1 = "scores(idx \<mapsto> fadd (getScore scores idx)
      (fmul (fmul idf (tfNorm (ofNat tf)
         (ofNat (length (tokenize (Content ?doc @ '' '' @ Title ?doc)))) avgLen k1 b)) boost))"
  have "\<forall>i \<in> set ps. 0 \<le> i \<and> i < int (length (docs e))" using Cons.prems by simp
  from Cons.IH [OF this, of ?scores1] obtain s' where
    s': "scoreLoop e tok ps ?scores1 idf avgLen k1 b boost = Inr s'"
        "dom s' = dom ?scores1 \<union> set ps" by blast
  have valid: "\<not> (idx < 0 \<or> int (length (docs e)) \<le> idx)" using Cons.prems by auto
  have "scoreLoop e tok (idx # ps) scores idf avgLen k1 b boost = Inr s'"
    using valid tf s'(1) by (simp add: Let_def)
  moreover have "dom s' = dom scores \<union> set (idx # ps)" using s'(2) by auto
  ultimately show ?case by blast
qed

lemma scoreLoop_no_index_fault:
  assumes "\<forall>i \<in> set ps. 0 \<le> i \<and> i < int (length (docs e))"
  shows "scoreLoop e tok ps scores idf avgLen k1 b boost \<noteq> Inl IndexOutOfRange"
  using assms
proof (induction ps arbitrary: scores)
  case Nil
  then show ?case by simp
next
  case (Cons idx ps)
  then show ?case by (auto simp: Let_def split: option.splits)
qed

lemma slotsValid_postings:
  "slotsValid e \<Longrightarrow> map_of (index e) tok = Some ps \<Longrightarrow>
     \<forall>i \<in> set ps. 0 \<le> i \<and> i < int (length (docs e))"
  using map_of_SomeD [of "index e" tok ps] by (auto simp: slotsValid_iff)

lemma scoreToken_returns:
  assumes "slotsValid e" and "tok \<noteq> []"
  shows "\<exists>s'. scoreToken e tok q scores N avgLen k1 b boost = Inr s' \<and>
              dom s' = dom scores \<union> set (postings (index e) tok)"
proof (cases "map_of (index e) tok")
  case None
  then show ?thesis by (simp add: scoreToken_def postings_def)
next
  case (Some ps)
  from scoreLoop_returns [OF slotsValid_postings [OF assms(1) Some] assms(2)] Some
  show ?thesis by (simp add: scoreToken_def postings_def)
qed

lemma scoreToken_no_index_fault:
  assumes "slotsValid e"
  shows "scoreToken e tok q scores N avgLen k1 b boost \<noteq> Inl IndexOutOfRange"
proof (cases "map_of (index e) tok")
  case None
  then show ?thesis by (simp add: scoreToken_def)
next
  case (Some ps)
  from scoreLoop_no_index_fault [OF slotsValid_postings [OF assms Some]] Some
  show ?thesis by (simp add: scoreToken_def)
qed

lemma slotsValid_postings_set:
  "slotsValid e \<Longrightarrow> set (postings (index e) tok) \<subseteq> {i. 0 \<le> i \<and> i < int (length (docs e))}"
proof (cases "map_of (index e) tok")
  case None
  then show ?thesis by (simp add: postings_def)
next
  case (Some ps)
  assume "slotsValid e"
  from slotsValid_postings [OF this Some] Some show ?thesis by (auto simp: postings_def)
qed

lemma prefixLoop_returns:
  assumes "slotsValid e"
  shows "\<exists>s'. prefixLoop e tok tokens keys scores N avgLen k1 b = Inr s' \<and>
              dom s' \<subseteq> dom scores \<union> {i. 0 \<le> i \<and> i < int (length (docs e))}"
proof (induction keys arbitrary: scores)
  case Nil
  then show ?case by simp
next
  case (Cons u keys)
  show ?case
  proof (cases "u \<noteq> tok \<and> HasPrefix u tok \<and> length tok \<ge> 3")
    case False
    then show ?thesis using Cons [of scores] by auto
  next
    case True
    then have "u \<noteq> []" by (auto simp: HasPrefix_def)
    from scoreToken_returns [OF assms this, of tokens scores N avgLen k1 b "Fin (7/10)"]
    obtain s1 where s1: "scoreToken e u tokens scores N avgLen k1 b (Fin (7/10)) = Inr s1"
      "dom s1 = dom scores \<union> set (postings (index e) u)" by blast
    from Cons [of s1] obtain s' where s': "prefixLoop e tok tokens keys s1 N avgLen k1 b = Inr s'"
      "dom s' \<subseteq> dom s1 \<union> {i. 0 \<le> i \<and> i < int (length (docs e))}" by blast
    have "prefixLoop e tok tokens (u # keys) scores N avgLen k1 b = Inr s'"
      using True s1(1) s'(1) by simp
    moreover have "dom s' \<subseteq> dom scores \<union> {i. 0 \<le> i \<and> i < int (length (docs e))}"
      using s'(2) s1(2) slotsValid_postings_set [OF assms, of u] by blast
    ultimately show ?thesis by blast
  qed
qed

lemma tokenLoop_returns:
  assumes "slotsValid e" and "\<forall>t \<in> set rest. t \<noteq> []"
  shows "\<exists>s'. tokenLoop e rest tokens scores N avgLen k1 b = Inr s' \<and>
              dom s' \<subseteq> dom scores \<union> {i. 0 \<le> i \<and> i < int (length (docs e))}"
  using assms(2)
proof (induction rest arbitrary: scores)
  case Nil
  then show ?case by simp
next
  case (Cons tok rest)
  then have ne: "tok \<noteq> []" by simp
  from scoreToken_returns [OF assms(1) ne, of tokens scores N avgLen k1 b "Fin 1"]
  obtain s1 where s1: "scoreToken e tok tokens scores N avgLen k1 b (Fin 1) = Inr s1"
    "dom s1 = dom scores \<union> set (postings (index e) tok)" by blast
  from prefixLoop_returns [OF assms(1), of tok tokens "map fst (index e)" s1 N avgLen k1 b]
  obtain s2 where s2: "prefixLoop e tok tokens (map fst (index e)) s1 N avgLen k1 b = Inr s2"
    "dom s2 \<subseteq> dom s1 \<union> {i. 0 \<le> i \<and> i < int (length (docs e))}" by blast
  have "\<forall>t \<in> set rest. t \<noteq> []" using Cons.prems by simp
  from Cons.IH [OF this, of s2] obtain s' where
    s': "tokenLoop e rest tokens s2 N avgLen k1 b = Inr s'"
    "dom s' \<subseteq> dom s2 \<union> {i. 0 \<le> i \<and> i < int (length (docs e))}" by blast
  have "tokenLoop e (tok # rest) tokens scores N avgLen k1 b = Inr s'"
    using s1(1) s2(1) s'(1) by simp
  moreover have "dom s' \<subseteq> dom scores \<union> {i. 0 \<le> i \<and> i < int (length (docs e))}"
    using s'(2) s2(2) s1(2) slotsValid_postings_set [OF assms(1), of tok] by blast
  ultimately show ?case by blast
qed

lemma dom_boostTokens:
  "dom (boostTokens title toks idx scores) =
     (if \<exists>t \<in> set toks. Contains title t then insert idx (dom scores) else dom scores)"
proof (induction toks arbitrary: scores)
  case Nil
  then show ?case by simp
next
  case (Cons t toks)
  show ?case
  proof (cases "Contains title t")
    case True
    have "dom (boostTokens title (t # toks) idx scores) =
          dom (boostTokens title toks idx (scores(idx \<mapsto> fadd (getScore scores idx) (Fin 2))))"
      using True by simp
    also have "\<dots> = insert idx (dom scores)"
      unfolding Cons by simp
    finally show ?thesis using True by simp
  next
    case False
    then show ?thesis using Cons [of scores] by simp
  qed
qed

lemma dom_boostDocs:
  "dom (boostDocs ds i toks scores) \<subseteq> dom scores \<union> {j. i \<le> j \<and> j < i + int (length ds)}"
proof (induction ds arbitrary: i scores)
  case Nil
  then show ?case by simp
next
  case (Cons d ds)
  let ?s1 = "boostTokens (ToLower (Title d)) toks i scores"
  have a: "dom (boostDocs ds (i + 1) toks ?s1) \<subseteq> dom ?s1 \<union> {j. i + 1 \<le> j \<and> j < i + 1 + int (length ds)}"
    by (rule Cons)
  have b: "dom ?s1 \<subseteq> insert i (dom scores)"
    by (simp add: dom_boostTokens subset_insertI)
  have c: "{j. i + 1 \<le> j \<and> j < i + 1 + int (length ds)} \<subseteq> {j. i \<le> j \<and> j < i + int (length (d # ds))}"
    by auto
  have d: "insert i (dom scores) \<subseteq> dom scores \<union> {j. i \<le> j \<and> j < i + int (length (d # ds))}"
    by auto
  have "dom (boostDocs (d # ds) i toks scores) = dom (boostDocs ds (i + 1) toks ?s1)" by simp
  then show ?case using a b c d by blast
qed

lemma rawScores_returns:
  assumes "slotsValid e" and "\<forall>t \<in> set tokens. t \<noteq> []"
  shows "\<exists>s. rawScores e tokens = Inr s \<and> dom s \<subseteq> {i. 0 \<le> i \<and> i < int (length (docs e))}"
proof -
  from tokenLoop_returns [OF assms, of tokens Map.empty "ofNat (length (docs e))" "avgDocLen e"
      "Fin (3/2)" "Fin (3/4)"]
  obtain s1 where s1: "tokenLoop e tokens tokens Map.empty (ofNat (length (docs e))) (avgDocLen e)
      (Fin (3/2)) (Fin (3/4)) = Inr s1" "dom s1 \<subseteq> {i. 0 \<le> i \<and> i < int (length (docs e))}"
    by auto
  have "dom (boostDocs (docs e) 0 tokens s1) \<subseteq> {i. 0 \<le> i \<and> i < int (length (docs e))}"
    using dom_boostDocs [of "docs e" 0 tokens s1] s1(2) by auto
  then show ?thesis using s1(1) by (simp add: rawScores_def)
qed

lemma windowLoop_bound:
  "windowLoop lower tokens i bestPos bestHits = bestPos \<or>
   windowLoop lower tokens i bestPos bestHits + 200 < length lower"
proof (induction lower tokens i bestPos bestHits rule: windowLoop.induct)
  case (1 lower tokens i bestPos bestHits)
  show ?case
  proof (cases "int i < int (length lower) - 200")
    case False
    then show ?thesis by (subst windowLoop.simps, subst (2) windowLoop.simps) simp
  next
    case True
    let ?endPos = "if i + 200 > length lower then length lower else i + 200"
    let ?hits = "length (filter (\<lambda>tok. Contains (take (?endPos - i) (drop i lower)) tok) tokens)"
    show ?thesis
    proof (cases "?hits > bestHits")
      case h: True
      have eq: "windowLoop lower tokens i bestPos bestHits = windowLoop lower tokens (i + 50) i ?hits"
        using True h by (subst windowLoop.simps) (simp add: Let_def)
      from "1.IH"(1) [OF True refl refl refl h] True show ?thesis unfolding eq by auto
    next
      case h: False
      have eq: "windowLoop lower tokens i bestPos bestHits =
          windowLoop lower tokens (i + 50) bestPos bestHits"
        using True h by (subst windowLoop.simps) (simp add: Let_def)
      from "1.IH"(2) [OF True refl refl refl h] show ?thesis unfolding eq by auto
    qed
  qed
qed

lemma extractExcerpt_returns:
  assumes "0 \<le> maxLen"
  shows "\<exists>ex. extractExcerpt content tokens maxLen = Inr ex"
proof (cases "length content = 0")
  case True
  then show ?thesis by (simp add: extractExcerpt_def)
next
  case False
  let ?bp = "windowLoop (ToLower content) tokens 0 0 0"
  have "?bp = 0 \<or> ?bp + 200 < length (ToLower content)" by (rule windowLoop_bound)
  then have "?bp \<le> length content" by (auto simp: ToLower_def)
  then show ?thesis using False assms by (auto simp: extractExcerpt_def Let_def)
qed

lemma resultsLoop_returns:
  assumes "\<forall>sd \<in> set ranked. 0 \<le> fst sd \<and> fst sd < int (length (docs e))"
  shows "\<exists>rs. resultsLoop e tokens maxScore ranked = Inr rs \<and>
     map Score rs = map (\<lambda>sd. if fgt maxScore (Fin 0) then fdiv (snd sd) maxScore else Fin 0) ranked \<and>
     map rURL rs = map (\<lambda>sd. URL (docs e ! nat (fst sd))) ranked"
  using assms
proof (induction ranked)
  case Nil
  then show ?case by simp
next
  case (Cons sd ranked)
  then obtain rs where rs: "resultsLoop e tokens maxScore ranked = Inr rs"
     "map Score rs = map (\<lambda>sd. if fgt maxScore (Fin 0) then fdiv (snd sd) maxScore else Fin 0) ranked"
     "map rURL rs = map (\<lambda>sd. URL (docs e ! nat (fst sd))) ranked" by auto
  obtain ex where ex: "extractExcerpt (Content (docs e ! nat (fst sd))) tokens 300 = Inr ex"
    using extractExcerpt_returns [of 300] by auto
  have valid: "\<not> (fst sd < 0 \<or> int (length (docs e)) \<le> fst sd)" using Cons.prems by auto
  show ?case using valid ex rs by (simp add: Let_def)
qed

lemma collect_set: "sd \<in> set (collect scores order) \<Longrightarrow> scores (fst sd) = Some (snd sd)"
  by (auto simp: collect_def List.map_filter_def)

lemma collect_rangeOrder:
  "rangeOrder scores order \<Longrightarrow> map fst (collect scores order) = order"
proof -
  assume r: "rangeOrder scores order"
  then have "\<forall>i \<in> set order. scores i \<noteq> None" by (auto simp: rangeOrder_def)
  then show ?thesis
    by (induction order) (auto simp: collect_def List.map_filter_def)
qed

subsection \<open>Search returns on valid slots\<close>

lemma Search_unfold:
  assumes "slotsValid e" and "0 \<le> topK" and "length (docs e) \<noteq> 0" and "tokenize query \<noteq> []"
  shows "\<exists>scores rs. rawScores e (tokenize query) = Inr scores \<and>
      dom scores \<subseteq> {i. 0 \<le> i \<and> i < int (length (docs e))} \<and>
      Search e query topK order = Inr rs \<and>
      map Score rs =
        map (\<lambda>sd. if fgt (snd (hd (insertionSort (collect scores order)))) (Fin 0)
                   then fdiv (snd sd) (snd (hd (insertionSort (collect scores order)))) else Fin 0)
            (take (nat topK) (insertionSort (collect scores order))) \<and>
      map rURL rs = map (\<lambda>sd. URL (docs e ! nat (fst sd)))
            (take (nat topK) (insertionSort (collect scores order)))"
proof -
  let ?tokens = "tokenize query"
  obtain scores where sc: "rawScores e ?tokens = Inr scores"
    "dom scores \<subseteq> {i. 0 \<le> i \<and> i < int (length (docs e))}"
    using rawScores_returns [OF assms(1) tokenize_nonempty] by blast
  let ?ranked = "insertionSort (collect scores order)"
  let ?maxScore = "case ?ranked of [] \<Rightarrow> Fin 0 | sd # _ \<Rightarrow> snd sd"
  have valid: "\<forall>sd \<in> set (take (nat topK) ?ranked). 0 \<le> fst sd \<and> fst sd < int (length (docs e))"
  proof
    fix sd assume "sd \<in> set (take (nat topK) ?ranked)"
    then have "sd \<in> set ?ranked" by (rule in_set_takeD)
    then have "sd \<in> set (collect scores order)" by (simp add: set_insertionSort)
    then have "fst sd \<in> dom scores" using collect_set by blast
    then show "0 \<le> fst sd \<and> fst sd < int (length (docs e))" using sc(2) by auto
  qed
  from resultsLoop_returns [OF valid, of ?tokens ?maxScore] obtain rs where
    rs: "resultsLoop e ?tokens ?maxScore (take (nat topK) ?ranked) = Inr rs"
    "map Score rs = map (\<lambda>sd. if fgt ?maxScore (Fin 0) then fdiv (snd sd) ?maxScore else Fin 0)
        (take (nat topK) ?ranked)"
    "map rURL rs = map (\<lambda>sd. URL (docs e ! nat (fst sd))) (take (nat topK) ?ranked)" by blast
  have S: "Search e query topK order = Inr rs"
    using assms sc(1) rs(1) by (simp add: Search_def Let_def)
  show ?thesis
  proof (cases ?ranked)
    case Nil
    then have "rs = []" using rs(2) by simp
    then show ?thesis using sc S Nil by simp
  next
    case (Cons sd rest)
    then have "?maxScore = snd (hd ?ranked)" by simp
    then show ?thesis using sc S rs(2,3) by auto
  qed
qed

lemma Search_returns:
  assumes "slotsValid e" and "0 \<le> topK"
  shows "\<exists>rs. Search e query topK order = Inr rs"
proof (cases "length (docs e) = 0 \<or> tokenize query = []")
  case True
  then show ?thesis by (auto simp: Search_def Let_def)
next
  case False
  then show ?thesis using Search_unfold [OF assms, of query order] by blast
qed

lemma Search_fault:
  assumes "slotsValid e" and "Search e query topK order = Inl f"
  shows "f = MakeSliceCapOutOfRange \<and> topK < 0"
proof (cases "0 \<le> topK")
  case True
  from Search_returns [OF assms(1) True, of query order] assms(2) show ?thesis by auto
next
  case False
  obtain scores where "rawScores e (tokenize query) = Inr scores"
    using rawScores_returns [OF assms(1) tokenize_nonempty] by blast
  then show ?thesis using False assms(2)
    by (auto simp: Search_def Let_def split: if_splits)
qed

lemma index_docA: "AddDoc docA NewEngine = \<lparr>docs = [docA], index = [(''foo'', [0]), (''bar'', [0])]\<rparr>"
  by (simp add: engine_defs docA_def string_defs)

subsection \<open>The scores of one token as real numbers\<close>

lemma tfNorm_Fin:
  assumes "0 < a" and "0 \<le> dl" and "0 \<le> tf"
  shows "tfNorm (Fin tf) (Fin dl) (Fin a) (Fin (3/2)) (Fin (3/4)) = Fin (spec_normalizedTF tf dl a)"
proof -
  define r where "r = 3/4 * dl / a"
  have "0 \<le> r" using assms by (simp add: r_def)
  then have "0 < 3/2 * (1 - 3/4 + r)" by (intro mult_pos_pos) auto
  then have "0 < tf + 3/2 * (1 - 3/4 + r)" using assms(3) by (rule add_nonneg_pos [rotated])
  then have "tf + 3/2 * (1 - 3/4 + 3/4 * dl / a) \<noteq> 0" unfolding r_def by simp
  then show ?thesis using assms(1)
    by (simp add: tfNorm_def fsub_def spec_normalizedTF_def)
qed

lemma idfOf_Fin:
  assumes "0 \<le> N" and "0 \<le> df"
  shows "idfOf (Fin N) (Fin df) = Fin (spec_idf N df)"
proof -
  have d: "df + 1/2 \<noteq> 0" using assms(2) by simp
  have "(N - df + 1/2) / (df + 1/2) + 1 = (N + 1) / (df + 1/2)"
    using d by (simp add: field_simps)
  moreover have "0 < (N + 1) / (df + 1/2)" using assms by simp
  ultimately have "0 < (N - df + 1/2) / (df + 1/2) + 1" by simp
  then show ?thesis using d by (simp add: idfOf_def fsub_def spec_idf_def)
qed

lemma realScore_upd:
  "realScore (scores(idx \<mapsto> Fin x)) i = (if i = idx then x else realScore scores i)"
  by (simp add: realScore_def getScore_def)

lemma finiteScores_upd: "finiteScores scores \<Longrightarrow> finiteScores (scores(idx \<mapsto> Fin x))"
  by (simp add: finiteScores_def)

lemma getScore_finite: "finiteScores scores \<Longrightarrow> getScore scores idx = Fin (realScore scores idx)"
proof (cases "scores idx")
  case None
  then show ?thesis by (simp add: getScore_def realScore_def)
next
  case (Some v)
  assume "finiteScores scores"
  then obtain x where "v = Fin x" using Some by (auto simp: finiteScores_def)
  then show ?thesis using Some by (simp add: getScore_def realScore_def)
qed

lemma scoreLoop_real:
  assumes "\<forall>i \<in> set ps. 0 \<le> i \<and> i < int (length (docs e))" and "tok \<noteq> []" and "0 < a"
    and "finiteScores scores"
  shows "\<exists>s'. scoreLoop e tok ps scores (Fin idf) (Fin a) (Fin (3/2)) (Fin (3/4)) (Fin w) = Inr s' \<and>
      finiteScores s' \<and> dom s' = dom scores \<union> set ps \<and>
      (\<forall>i. realScore s' i = realScore scores i +
         real (count_list ps i) *
           (idf * spec_normalizedTF (real (tfOf e tok i)) (real (docLenOf e i)) a * w))"
  using assms(1,4)
proof (induction ps arbitrary: scores)
  case Nil
  then show ?case by simp
next
  case (Cons idx ps)
  let ?doc = "docs e ! nat idx"
  obtain tf where tf: "countOccurrences tok (Content ?doc @ '' '' @ Title ?doc) = Some tf"
    using countOccurrences_returns [OF assms(2)] by blast
  then have tfOf: "tfOf e tok idx = tf" by (simp add: tfOf_def)
  let ?dl = "length (tokenize (Content ?doc @ '' '' @ Title ?doc))"
  let ?c = "idf * spec_normalizedTF (real tf) (real ?dl) a * w"
  let ?scores1 = "scores(idx \<mapsto> Fin (realScore scores idx + ?c))"
  have tn: "tfNorm (ofNat tf) (ofNat ?dl) (Fin a) (Fin (3/2)) (Fin (3/4)) =
      Fin (spec_normalizedTF (real tf) (real ?dl) a)"
    unfolding ofNat_def using assms(3) by (intro tfNorm_Fin) simp_all
  have upd: "scores(idx \<mapsto> fadd (getScore scores idx)
      (fmul (fmul (Fin idf) (tfNorm (ofNat tf) (ofNat ?dl) (Fin a) (Fin (3/2)) (Fin (3/4)))) (Fin w)))
      = ?scores1"
    unfolding tn getScore_finite [OF Cons.prems(2)] by simp
  have v: "\<forall>i \<in> set ps. 0 \<le> i \<and> i < int (length (docs e))" using Cons.prems(1) by simp
  have f1: "finiteScores ?scores1" using Cons.prems(2) by (rule finiteScores_upd)
  from Cons.IH [OF v f1] obtain s' where
    s': "scoreLoop e tok ps ?scores1 (Fin idf) (Fin a) (Fin (3/2)) (Fin (3/4)) (Fin w) = Inr s'"
      "finiteScores s'" "dom s' = dom ?scores1 \<union> set ps"
      "\<forall>i. realScore s' i = realScore ?scores1 i +
         real (count_list ps i) *
           (idf * spec_normalizedTF (real (tfOf e tok i)) (real (docLenOf e i)) a * w)"
    by blast
  have valid: "\<not> (idx < 0 \<or> int (length (docs e)) \<le> idx)" using Cons.prems(1) by auto
  have run: "scoreLoop e tok (idx # ps) scores (Fin idf) (Fin a) (Fin (3/2)) (Fin (3/4)) (Fin w) = Inr s'"
    using valid tf s'(1) upd by (simp add: Let_def)
  have d: "dom s' = dom scores \<union> set (idx # ps)" using s'(3) by auto
  have r: "\<forall>i. realScore s' i = realScore scores i +
         real (count_list (idx # ps) i) *
           (idf * spec_normalizedTF (real (tfOf e tok i)) (real (docLenOf e i)) a * w)"
  proof
    fix i
    show "realScore s' i = realScore scores i +
         real (count_list (idx # ps) i) *
           (idf * spec_normalizedTF (real (tfOf e tok i)) (real (docLenOf e i)) a * w)"
    proof (cases "i = idx")
      case True
      then show ?thesis using s'(4) tfOf
        by (simp add: realScore_upd docLenOf_def algebra_simps)
    next
      case False
      then show ?thesis using s'(4) by (simp add: realScore_upd)
    qed
  qed
  from run s'(2) d r show ?case by blast
qed

lemma scoreToken_real:
  assumes "slotsValid e" and "tok \<noteq> []" and "0 < a" and "finiteScores scores"
  shows "\<exists>s'. scoreToken e tok q scores (ofNat (length (docs e))) (Fin a) (Fin (3/2)) (Fin (3/4))
                 (Fin w) = Inr s' \<and>
      finiteScores s' \<and> dom s' = dom scores \<union> set (postings (index e) tok) \<and>
      (\<forall>i. realScore s' i = realScore scores i + termScore e a tok i * w)"
proof (cases "map_of (index e) tok")
  case None
  then show ?thesis using assms(4) by (simp add: scoreToken_def postings_def termScore_def)
next
  case (Some ps)
  have idf: "idfOf (ofNat (length (docs e))) (ofNat (length ps)) =
      Fin (spec_idf (real (length (docs e))) (real (length ps)))"
    unfolding ofNat_def by (intro idfOf_Fin) simp_all
  from scoreLoop_real [OF slotsValid_postings [OF assms(1) Some] assms(2,3,4),
      of "spec_idf (real (length (docs e))) (real (length ps))" w]
  show ?thesis using Some idf
    by (simp add: scoreToken_def postings_def termScore_def algebra_simps)
qed

subsection \<open>The scores of a query as real numbers\<close>

lemma prefixLoop_real:
  assumes "slotsValid e" and "0 < a" and "finiteScores scores"
  shows "\<exists>s'. prefixLoop e tok tokens keys scores (ofNat (length (docs e))) (Fin a) (Fin (3/2))
                 (Fin (3/4)) = Inr s' \<and>
      finiteScores s' \<and>
      (\<forall>i. realScore s' i = realScore scores i +
             (\<Sum>u\<leftarrow>prefixTerms tok keys. termScore e a u i * (7/10)))"
  using assms(3)
proof (induction keys arbitrary: scores)
  case Nil
  then show ?case by (simp add: prefixTerms_def)
next
  case (Cons u keys)
  show ?case
  proof (cases "u \<noteq> tok \<and> HasPrefix u tok \<and> length tok \<ge> 3")
    case False
    then have "prefixTerms tok (u # keys) = prefixTerms tok keys" by (auto simp: prefixTerms_def)
    then show ?thesis using False Cons.IH [OF Cons.prems] by auto
  next
    case True
    then have ne: "u \<noteq> []" by (auto simp: HasPrefix_def)
    have pt: "prefixTerms tok (u # keys) = u # prefixTerms tok keys"
      using True by (simp add: prefixTerms_def)
    from scoreToken_real [OF assms(1) ne assms(2) Cons.prems, of tokens "7/10"]
    obtain s1 where s1:
      "scoreToken e u tokens scores (ofNat (length (docs e))) (Fin a) (Fin (3/2)) (Fin (3/4))
         (Fin (7/10)) = Inr s1"
      "finiteScores s1"
      "\<forall>i. realScore s1 i = realScore scores i + termScore e a u i * (7/10)" by blast
    from Cons.IH [OF s1(2)] obtain s' where s':
      "prefixLoop e tok tokens keys s1 (ofNat (length (docs e))) (Fin a) (Fin (3/2)) (Fin (3/4)) = Inr s'"
      "finiteScores s'"
      "\<forall>i. realScore s' i = realScore s1 i + (\<Sum>u\<leftarrow>prefixTerms tok keys. termScore e a u i * (7/10))"
      by blast
    have run: "prefixLoop e tok tokens (u # keys) scores (ofNat (length (docs e))) (Fin a) (Fin (3/2))
        (Fin (3/4)) = Inr s'"
      using True s1(1) s'(1) by simp
    have "\<forall>i. realScore s' i = realScore scores i +
        (\<Sum>u\<leftarrow>prefixTerms tok (u # keys). termScore e a u i * (7/10))"
      using s'(3) s1(3) unfolding pt by simp
    with run s'(2) show ?thesis by blast
  qed
qed

lemma tokenLoop_real:
  assumes "slotsValid e" and "0 < a" and "finiteScores scores" and "\<forall>t \<in> set rest. t \<noteq> []"
  shows "\<exists>s'. tokenLoop e rest tokens scores (ofNat (length (docs e))) (Fin a) (Fin (3/2))
                 (Fin (3/4)) = Inr s' \<and>
      finiteScores s' \<and>
      (\<forall>i. realScore s' i = realScore scores i + queryScore e a rest i)"
  using assms(3,4)
proof (induction rest arbitrary: scores)
  case Nil
  then show ?case by (simp add: queryScore_def)
next
  case (Cons tok rest)
  then have ne: "tok \<noteq> []" by simp
  from scoreToken_real [OF assms(1) ne assms(2) Cons.prems(1), of tokens 1]
  obtain s1 where s1:
    "scoreToken e tok tokens scores (ofNat (length (docs e))) (Fin a) (Fin (3/2)) (Fin (3/4))
       (Fin 1) = Inr s1"
    "finiteScores s1"
    "\<forall>i. realScore s1 i = realScore scores i + termScore e a tok i * 1" by blast
  from prefixLoop_real [OF assms(1,2) s1(2), of tok tokens "map fst (index e)"]
  obtain s2 where s2:
    "prefixLoop e tok tokens (map fst (index e)) s1 (ofNat (length (docs e))) (Fin a) (Fin (3/2))
       (Fin (3/4)) = Inr s2"
    "finiteScores s2"
    "\<forall>i. realScore s2 i = realScore s1 i +
        (\<Sum>u\<leftarrow>prefixTerms tok (map fst (index e)). termScore e a u i * (7/10))" by blast
  have r: "\<forall>t \<in> set rest. t \<noteq> []" using Cons.prems(2) by simp
  from Cons.IH [OF s2(2) r] obtain s' where s':
    "tokenLoop e rest tokens s2 (ofNat (length (docs e))) (Fin a) (Fin (3/2)) (Fin (3/4)) = Inr s'"
    "finiteScores s'"
    "\<forall>i. realScore s' i = realScore s2 i + queryScore e a rest i" by blast
  have run: "tokenLoop e (tok # rest) tokens scores (ofNat (length (docs e))) (Fin a) (Fin (3/2))
      (Fin (3/4)) = Inr s'"
    using s1(1) s2(1) s'(1) by simp
  have "\<forall>i. realScore s' i = realScore scores i + queryScore e a (tok # rest) i"
    using s'(3) s2(3) s1(3) by (simp add: queryScore_def)
  with run s'(2) show ?case by blast
qed

lemma boostTokens_real:
  assumes "finiteScores scores"
  shows "finiteScores (boostTokens title toks idx scores) \<and>
     (\<forall>i. realScore (boostTokens title toks idx scores) i =
        realScore scores i +
        (if i = idx then 2 * real (length (filter (\<lambda>tok. Contains title tok) toks)) else 0))"
  using assms
proof (induction toks arbitrary: scores)
  case Nil
  then show ?case by simp
next
  case (Cons t toks)
  show ?case
  proof (cases "Contains title t")
    case False
    then show ?thesis using Cons.IH [OF Cons.prems] by simp
  next
    case True
    let ?s1 = "scores(idx \<mapsto> Fin (realScore scores idx + 2))"
    have u: "scores(idx \<mapsto> fadd (getScore scores idx) (Fin 2)) = ?s1"
      unfolding getScore_finite [OF Cons.prems] by simp
    have f: "finiteScores ?s1" using Cons.prems by (rule finiteScores_upd)
    have b: "boostTokens title (t # toks) idx scores = boostTokens title toks idx ?s1"
      using True u by simp
    have ih: "finiteScores (boostTokens title toks idx ?s1) \<and>
      (\<forall>i. realScore (boostTokens title toks idx ?s1) i =
        realScore ?s1 i +
        (if i = idx then 2 * real (length (filter (\<lambda>tok. Contains title tok) toks)) else 0))"
      by (rule Cons.IH [OF f])
    show ?thesis unfolding b using ih True by (simp add: realScore_upd)
  qed
qed

lemma boostDocs_real:
  assumes "finiteScores scores"
  shows "finiteScores (boostDocs ds k toks scores) \<and>
     (\<forall>i. realScore (boostDocs ds k toks scores) i =
        realScore scores i +
        (if k \<le> i \<and> i < k + int (length ds)
         then 2 * real (length (filter (\<lambda>tok. Contains (ToLower (Title (ds ! nat (i - k)))) tok) toks))
         else 0))"
  using assms
proof (induction ds arbitrary: k scores)
  case Nil
  then show ?case by auto
next
  case (Cons d ds)
  let ?s1 = "boostTokens (ToLower (Title d)) toks k scores"
  from boostTokens_real [OF Cons.prems, of "ToLower (Title d)" toks k]
  have f1: "finiteScores ?s1" and r1: "\<forall>i. realScore ?s1 i = realScore scores i +
        (if i = k then 2 * real (length (filter (\<lambda>tok. Contains (ToLower (Title d)) tok) toks)) else 0)"
    by simp_all
  from Cons.IH [OF f1, of "k + 1"]
  have f2: "finiteScores (boostDocs ds (k + 1) toks ?s1)"
    and r2: "\<forall>i. realScore (boostDocs ds (k + 1) toks ?s1) i = realScore ?s1 i +
        (if k + 1 \<le> i \<and> i < k + 1 + int (length ds)
         then 2 * real (length (filter (\<lambda>tok. Contains (ToLower (Title (ds ! nat (i - (k + 1))))) tok) toks))
         else 0)" by simp_all
  have "\<forall>i. realScore (boostDocs (d # ds) k toks scores) i =
        realScore scores i +
        (if k \<le> i \<and> i < k + int (length (d # ds))
         then 2 * real (length (filter (\<lambda>tok. Contains (ToLower (Title ((d # ds) ! nat (i - k)))) tok) toks))
         else 0)"
  proof
    fix i
    consider "i = k" | "k + 1 \<le> i \<and> i < k + 1 + int (length ds)" | "i < k \<or> k + 1 + int (length ds) \<le> i"
      by linarith
    then show "realScore (boostDocs (d # ds) k toks scores) i =
        realScore scores i +
        (if k \<le> i \<and> i < k + int (length (d # ds))
         then 2 * real (length (filter (\<lambda>tok. Contains (ToLower (Title ((d # ds) ! nat (i - k)))) tok) toks))
         else 0)"
    proof cases
      case 1
      then show ?thesis using r1 r2 by simp
    next
      case 2
      then have "nat (i - k) = Suc (nat (i - (k + 1)))" by linarith
      then show ?thesis using 2 r1 r2 by simp
    next
      case 3
      then show ?thesis using r1 r2 by auto
    qed
  qed
  with f2 show ?case by simp
qed

lemma foldl_add_sum_list:
  "foldl (\<lambda>total d. total + f d) (n::nat) ds = n + sum_list (map f ds)"
  by (induction ds arbitrary: n) simp_all

lemma avgDocLen_mean:
  "avgDocLen e =
     Fin (if docs e = [] then 100
          else real (\<Sum>d\<leftarrow>docs e. length (tokenize (Content d @ '' '' @ Title d))) /
               real (length (docs e)))"
  by (simp add: avgDocLen_def ofNat_def foldl_add_sum_list)

lemma finiteScores_empty: "finiteScores Map.empty"
  by (simp add: finiteScores_def)

lemma realScore_empty: "realScore Map.empty i = 0"
  by (simp add: realScore_def getScore_def)

lemma rawScores_real:
  assumes "slotsValid e" and "\<forall>t \<in> set tokens. t \<noteq> []" and "avgDocLen e = Fin a" and "0 < a"
  shows "\<exists>s. rawScores e tokens = Inr s \<and> finiteScores s \<and>
     (\<forall>i. realScore s i = queryScore e a tokens i + titleBonus e tokens i)"
proof -
  from tokenLoop_real [OF assms(1,4) finiteScores_empty assms(2), of tokens]
  obtain s1 where s1:
    "tokenLoop e tokens tokens Map.empty (ofNat (length (docs e))) (Fin a) (Fin (3/2)) (Fin (3/4)) = Inr s1"
    "finiteScores s1" "\<forall>i. realScore s1 i = realScore Map.empty i + queryScore e a tokens i"
    by blast
  from boostDocs_real [OF s1(2), of "docs e" 0 tokens]
  have f: "finiteScores (boostDocs (docs e) 0 tokens s1)"
    and r: "\<forall>i. realScore (boostDocs (docs e) 0 tokens s1) i = realScore s1 i + titleBonus e tokens i"
    by (simp_all add: titleBonus_def)
  have "rawScores e tokens = Inr (boostDocs (docs e) 0 tokens s1)"
    using s1(1) assms(3) by (simp add: rawScores_def)
  then show ?thesis using f r s1(3) by (simp add: realScore_empty)
qed

subsection \<open>Example engines and the count of occurrences\<close>

lemma eA_eq: "eA = \<lparr>docs = [docA], index = [(''foo'', [0]), (''bar'', [0])]\<rparr>"
  by (simp add: eA_def index_docA)

lemma eRigid_eq: "eRigid = \<lparr>docs = [docRigid], index = [(''rigidbody'', [0])]\<rparr>"
  by (simp add: eRigid_def engine_defs docRigid_def string_defs)

lemma eDup_eq:
  "eDup = \<lparr>docs = [docFive, docOne], index = [(''foo'', [0, 1, 0, 1]), (''bar'', [1, 1])]\<rparr>"
  by (simp add: eDup_def engine_defs docFive_def docOne_def string_defs)

lemmas score_defs = rawScores_def scoreToken_def avgDocLen_def ofNat_def idfOf_def tfNorm_def
  fsub_def getScore_def countOccurrences_def countLoop.simps

lemmas search_defs = Search_def collect_def insertionSort_def List.map_filter_simps
  extractExcerpt_def Let_def windowLoop.simps

lemma countLoop_count:
  assumes "tok \<noteq> []"
  shows "\<exists>n. countLoop tok lower idx cnt = Some n \<and> cnt \<le> n \<and>
              (n = cnt \<longleftrightarrow> Index (drop idx lower) tok = None)"
proof (cases "Index (drop idx lower) tok")
  case None
  then show ?thesis by (subst countLoop.simps) simp
next
  case (Some i)
  obtain n where n: "countLoop tok lower (idx + (i + length tok)) (cnt + 1) = Some n"
    using countLoop_returns [OF assms] by blast
  have "cnt + 1 \<le> n"
    using n
  proof (induction "length lower - (idx + (i + length tok))" arbitrary: idx i cnt rule: less_induct)
    case less
    show ?case
    proof (cases "Index (drop (idx + (i + length tok)) lower) tok")
      case None
      then show ?thesis using less.prems by (subst (asm) countLoop.simps) simp
    next
      case (Some j)
      from Index_Some [OF Some] have le: "j + length tok \<le> length lower - (idx + (i + length tok))"
        by simp
      have pos: "0 < length tok" using assms by simp
      have m: "length lower - ((idx + (i + length tok)) + (j + length tok)) <
          length lower - (idx + (i + length tok))" using le pos by arith
      have c: "countLoop tok lower ((idx + (i + length tok)) + (j + length tok)) (cnt + 1 + 1) = Some n"
        using less.prems Some by (subst (asm) countLoop.simps) simp
      from less.hyps [of "idx + (i + length tok)" j "cnt + 1"] m c show ?thesis by simp
    qed
  qed
  then show ?thesis using Some n by (subst countLoop.simps) simp
qed

lemma tfOf_zero:
  assumes "tok \<noteq> []"
  shows "tfOf e tok idx = 0 \<longleftrightarrow>
     \<not> Contains (ToLower (Content (docs e ! nat idx) @ '' '' @ Title (docs e ! nat idx))) tok"
proof -
  let ?text = "Content (docs e ! nat idx) @ '' '' @ Title (docs e ! nat idx)"
  from countLoop_count [OF assms, of "ToLower ?text" 0 0]
  obtain n where "countLoop tok (ToLower ?text) 0 0 = Some n"
    "n = 0 \<longleftrightarrow> Index (ToLower ?text) tok = None" by auto
  then show ?thesis by (simp add: tfOf_def countOccurrences_def Contains_def)
qed

subsection \<open>The prefix example and the monotonicity of the formula\<close>

lemma rawScores_eRigid: "rawScores eRigid [''rigid''] = Inr [0 \<mapsto> Fin (ln (4/3) * (7/10))]"
  by (simp add: eRigid_eq score_defs docRigid_def string_defs)

lemma Search_eRigid:
  "Search eRigid ''rigid'' 5 [0] =
     Inr [\<lparr>rTitle = [], rURL = ''u1'', Excerpt = ''rigidbody'', Score = Fin 1\<rparr>]"
  by (simp add: eRigid_eq score_defs search_defs docRigid_def string_defs)

lemma spec_normalizedTF_mono:
  assumes "0 < a" and "0 \<le> dl" and "0 \<le> tf1" and "tf1 \<le> tf2"
  shows "spec_normalizedTF tf1 dl a \<le> spec_normalizedTF tf2 dl a"
proof -
  define K where "K = 1.5 * (1 - 0.75 + 0.75 * dl / a)"
  have "0 \<le> 0.75 * dl / a" using assms by simp
  then have K: "0 < K" unfolding K_def by (intro mult_pos_pos add_pos_nonneg) auto
  have p1: "0 < tf1 + K" and p2: "0 < tf2 + K" using K assms by auto
  have "tf1 * K \<le> tf2 * K" using assms(4) K by (simp add: mult_right_mono)
  then have "tf1 * (1.5 + 1) * (tf2 + K) \<le> tf2 * (1.5 + 1) * (tf1 + K)"
    by (simp add: algebra_simps)
  then have "tf1 * (1.5 + 1) / (tf1 + K) \<le> tf2 * (1.5 + 1) / (tf2 + K)"
    using p1 p2 by (simp add: frac_le_eq divide_le_0_iff mult.commute not_less [symmetric] field_simps)
  then show ?thesis by (simp add: spec_normalizedTF_def K_def)
qed

lemma spec_idf_nonneg:
  assumes "0 \<le> df" and "df \<le> N"
  shows "0 \<le> spec_idf N df"
proof -
  have "0 \<le> (N - df + 0.5) / (df + 0.5)" using assms by simp
  then have "1 \<le> (N - df + 0.5) / (df + 0.5) + 1" by simp
  then show ?thesis unfolding spec_idf_def by (rule ln_ge_zero)
qed

lemma spec_contribution_mono:
  assumes "0 < a" and "0 \<le> dl" and "0 \<le> tf1" and "tf1 \<le> tf2" and "0 \<le> df" and "df \<le> N"
  shows "spec_idf N df * spec_normalizedTF tf1 dl a \<le> spec_idf N df * spec_normalizedTF tf2 dl a"
  using spec_normalizedTF_mono [OF assms(1-4)] spec_idf_nonneg [OF assms(5,6)]
  by (rule mult_left_mono)

lemma spec_normalizedTF_bounded:
  assumes "0 < a" and "0 \<le> dl" and "0 \<le> tf"
  shows "spec_normalizedTF tf dl a < 5/2"
proof -
  define K where "K = 1.5 * (1 - 0.75 + 0.75 * dl / a)"
  have "0 \<le> 0.75 * dl / a" using assms by simp
  then have K: "0 < K" unfolding K_def by (intro mult_pos_pos add_pos_nonneg) auto
  have p: "0 < tf + K" using K assms by auto
  have "tf * (1.5 + 1) < 5/2 * (tf + K)" using K by (simp add: algebra_simps)
  then have "tf * (1.5 + 1) / (tf + K) < 5/2" using p by (simp add: pos_divide_less_eq)
  then show ?thesis by (simp add: spec_normalizedTF_def K_def)
qed

subsection \<open>No score is infinite\<close>

lemma notInf_Fin [simp]: "notInf (Fin x)" and notInf_NaN [simp]: "notInf NaN"
  by (simp_all add: notInf_def)

lemma notInf_cases: "notInf v \<Longrightarrow> (\<exists>x. v = Fin x) \<or> v = NaN"
  by (cases v) (simp_all add: notInf_def)

lemma notInf_fadd: "notInf x \<Longrightarrow> notInf y \<Longrightarrow> notInf (fadd x y)"
  by (cases x; cases y) (simp_all add: notInf_def)

lemma notInf_fmul: "notInf x \<Longrightarrow> notInf y \<Longrightarrow> notInf (fmul x y)"
  by (cases x; cases y) (simp_all add: notInf_def)

lemma notInf_tfNorm:
  assumes "0 \<le> a" and "0 \<le> dl" and "0 \<le> tf"
  shows "notInf (tfNorm (Fin tf) (Fin dl) (Fin a) (Fin (3/2)) (Fin (3/4)))"
proof (cases "a = 0")
  case False
  then have "0 < a" using assms(1) by simp
  from tfNorm_Fin [OF this assms(2,3)] show ?thesis by simp
next
  case True
  show ?thesis
  proof (cases "dl = 0")
    case z: True
    then show ?thesis using True by (simp add: tfNorm_def fsub_def signedInf_def)
  next
    case False
    then have "0 < dl" using assms(2) by simp
    then show ?thesis using True by (simp add: tfNorm_def fsub_def signedInf_def)
  qed
qed


lemma notInf_getScore: "notInfScores scores \<Longrightarrow> notInf (getScore scores idx)"
  by (cases "scores idx") (auto simp: notInfScores_def getScore_def)

lemma notInfScores_upd: "notInfScores scores \<Longrightarrow> notInf v \<Longrightarrow> notInfScores (scores(idx \<mapsto> v))"
  by (simp add: notInfScores_def)

lemma scoreLoop_notInf:
  assumes "0 \<le> a" and "notInfScores scores"
    and "scoreLoop e tok ps scores (Fin idf) (Fin a) (Fin (3/2)) (Fin (3/4)) (Fin w) = Inr s'"
  shows "notInfScores s'"
  using assms(2,3)
proof (induction ps arbitrary: scores)
  case Nil
  then show ?case by simp
next
  case (Cons idx ps)
  let ?doc = "docs e ! nat idx"
  from Cons.prems(2) obtain tf where
    tf: "countOccurrences tok (Content ?doc @ '' '' @ Title ?doc) = Some tf"
    by (auto simp: Let_def split: if_splits option.splits)
  let ?v = "fadd (getScore scores idx)
      (fmul (fmul (Fin idf) (tfNorm (ofNat tf)
         (ofNat (length (tokenize (Content ?doc @ '' '' @ Title ?doc)))) (Fin a) (Fin (3/2))
         (Fin (3/4)))) (Fin w))"
  have "notInf (tfNorm (ofNat tf) (ofNat (length (tokenize (Content ?doc @ '' '' @ Title ?doc))))
      (Fin a) (Fin (3/2)) (Fin (3/4)))"
    unfolding ofNat_def using assms(1) by (intro notInf_tfNorm) simp_all
  then have "notInf ?v"
    using notInf_getScore [OF Cons.prems(1)] by (intro notInf_fadd notInf_fmul) simp_all
  then have n1: "notInfScores (scores(idx \<mapsto> ?v))"
    using Cons.prems(1) by (intro notInfScores_upd)
  have run: "scoreLoop e tok ps (scores(idx \<mapsto> ?v)) (Fin idf) (Fin a) (Fin (3/2)) (Fin (3/4)) (Fin w) = Inr s'"
    using Cons.prems(2) tf by (simp add: Let_def split: if_splits)
  from Cons.IH [OF n1 run] show ?case .
qed

lemma scoreToken_notInf:
  assumes "0 \<le> a" and "notInfScores scores"
    and "scoreToken e tok q scores (ofNat n) (Fin a) (Fin (3/2)) (Fin (3/4)) (Fin w) = Inr s'"
  shows "notInfScores s'"
proof (cases "map_of (index e) tok")
  case None
  then show ?thesis using assms by (simp add: scoreToken_def)
next
  case (Some ps)
  have idf: "idfOf (ofNat n) (ofNat (length ps)) = Fin (spec_idf (real n) (real (length ps)))"
    unfolding ofNat_def by (intro idfOf_Fin) simp_all
  from assms(3) Some idf have
    "scoreLoop e tok ps scores (Fin (spec_idf (real n) (real (length ps)))) (Fin a) (Fin (3/2))
       (Fin (3/4)) (Fin w) = Inr s'"
    by (simp add: scoreToken_def)
  from scoreLoop_notInf [OF assms(1,2) this] show ?thesis .
qed

lemma prefixLoop_notInf:
  assumes "0 \<le> a" and "notInfScores scores"
    and "prefixLoop e tok tokens keys scores (ofNat n) (Fin a) (Fin (3/2)) (Fin (3/4)) = Inr s'"
  shows "notInfScores s'"
  using assms(2,3)
proof (induction keys arbitrary: scores)
  case Nil
  then show ?case by simp
next
  case (Cons u keys)
  show ?case
  proof (cases "u \<noteq> tok \<and> HasPrefix u tok \<and> length tok \<ge> 3")
    case False
    then show ?thesis using Cons by auto
  next
    case True
    with Cons.prems(2) obtain s1 where
      s1: "scoreToken e u tokens scores (ofNat n) (Fin a) (Fin (3/2)) (Fin (3/4)) (Fin (7/10)) = Inr s1"
      and r: "prefixLoop e tok tokens keys s1 (ofNat n) (Fin a) (Fin (3/2)) (Fin (3/4)) = Inr s'"
      by (auto split: sum.splits)
    from Cons.IH [OF scoreToken_notInf [OF assms(1) Cons.prems(1) s1] r] show ?thesis .
  qed
qed

lemma tokenLoop_notInf:
  assumes "0 \<le> a" and "notInfScores scores"
    and "tokenLoop e rest tokens scores (ofNat n) (Fin a) (Fin (3/2)) (Fin (3/4)) = Inr s'"
  shows "notInfScores s'"
  using assms(2,3)
proof (induction rest arbitrary: scores)
  case Nil
  then show ?case by simp
next
  case (Cons tok rest)
  from Cons.prems(2) obtain s1 s2 where
    s1: "scoreToken e tok tokens scores (ofNat n) (Fin a) (Fin (3/2)) (Fin (3/4)) (Fin 1) = Inr s1"
    and s2: "prefixLoop e tok tokens (map fst (index e)) s1 (ofNat n) (Fin a) (Fin (3/2)) (Fin (3/4)) = Inr s2"
    and r: "tokenLoop e rest tokens s2 (ofNat n) (Fin a) (Fin (3/2)) (Fin (3/4)) = Inr s'"
    by (auto split: sum.splits)
  from Cons.IH [OF prefixLoop_notInf [OF assms(1) scoreToken_notInf [OF assms(1) Cons.prems(1) s1] s2] r]
  show ?case .
qed

lemma boostTokens_notInf:
  "notInfScores scores \<Longrightarrow> notInfScores (boostTokens title toks idx scores)"
proof (induction toks arbitrary: scores)
  case Nil
  then show ?case by simp
next
  case (Cons t toks)
  have "notInf (fadd (getScore scores idx) (Fin 2))"
    using notInf_getScore [OF Cons.prems] by (intro notInf_fadd) simp_all
  then have "notInfScores (scores(idx \<mapsto> fadd (getScore scores idx) (Fin 2)))"
    using Cons.prems by (intro notInfScores_upd)
  then show ?case using Cons by simp
qed

lemma boostDocs_notInf:
  "notInfScores scores \<Longrightarrow> notInfScores (boostDocs ds k toks scores)"
  by (induction ds arbitrary: k scores) (simp_all add: boostTokens_notInf)

lemma avgDocLen_nonneg: "\<exists>a. avgDocLen e = Fin a \<and> 0 \<le> a"
  by (simp add: avgDocLen_mean)

lemma rawScores_notInf:
  assumes "rawScores e tokens = Inr scores"
  shows "notInfScores scores"
proof -
  obtain a where a: "avgDocLen e = Fin a" "0 \<le> a" using avgDocLen_nonneg by blast
  from assms obtain s1 where
    s1: "tokenLoop e tokens tokens Map.empty (ofNat (length (docs e))) (Fin a) (Fin (3/2)) (Fin (3/4)) = Inr s1"
    and s: "scores = boostDocs (docs e) 0 tokens s1"
    unfolding rawScores_def a(1) by (auto split: sum.splits)
  have "notInfScores Map.empty" by (simp add: notInfScores_def)
  from tokenLoop_notInf [OF a(2) this s1] show ?thesis unfolding s by (rule boostDocs_notInf)
qed

subsection \<open>The examples of a zero score and of a tie\<close>

lemma eTag_eq:
  "eTag = \<lparr>docs = [docTag], index = [(''hello'', [0]), (''world'', [0]), (''physics'', [0])]\<rparr>"
  by (simp add: eTag_def engine_defs docTag_def string_defs)

lemma eTie_eq:
  "eTie = \<lparr>docs = [docP0, docP1],
            index = [(''xphysics'', [0, 1]), (''first'', [0]), (''second'', [1])]\<rparr>"
  by (simp add: eTie_def engine_defs docP0_def docP1_def string_defs)

lemma tokenize_physics: "tokenize ''physics'' = [''physics'']"
  by (simp add: string_defs)

lemma rawScores_eTag: "rawScores eTag [''physics''] = Inr tagScores"
proof -
  have t: "Title docTag = []" by (simp add: docTag_def)
  have d: "tokenize (Content docTag @ '' '') = [''hello'', ''world'']"
    by (simp add: docTag_def string_defs)
  have c: "countOccurrences ''physics'' (Content docTag @ '' '') = Some 0"
    by (simp add: countOccurrences_def countLoop.simps docTag_def string_defs)
  show ?thesis
    unfolding eTag_eq tagScores_def
    by (simp add: rawScores_def scoreToken_def avgDocLen_def ofNat_def idfOf_def tfNorm_def
        fsub_def getScore_def t d c HasPrefix_def ToLower_def Contains_def)
qed

lemma Search_eTag:
  "Search eTag ''physics'' 5 [0] =
     Inr [\<lparr>rTitle = [], rURL = ''u1'', Excerpt = ''hello world'', Score = Fin 0\<rparr>]"
proof -
  have x: "extractExcerpt (Content docTag) [''physics''] 300 = Inr ''hello world''"
    by (simp add: extractExcerpt_def Let_def windowLoop.simps docTag_def string_defs)
  have u: "URL docTag = ''u1''" "Title docTag = []" by (simp_all add: docTag_def)
  have dd: "docs eTag = [docTag]" by (simp add: eTag_eq)
  show ?thesis
    by (simp add: Search_def tokenize_physics rawScores_eTag dd tagScores_def collect_def
        insertionSort_def List.map_filter_simps Let_def x u)
qed

lemma rawScores_eTie: "rawScores eTie [''physics''] = Inr tieScores"
proof -
  have t: "Title docP0 = ''xphysics''" "Title docP1 = ''xphysics''"
    by (simp_all add: docP0_def docP1_def)
  have c: "Contains (ToLower ''xphysics'') ''physics''" by (simp add: string_defs)
  have p: "\<not> HasPrefix ''xphysics'' ''physics''" "\<not> HasPrefix ''first'' ''physics''"
    "\<not> HasPrefix ''second'' ''physics''" by (simp_all add: HasPrefix_def)
  show ?thesis
    unfolding eTie_eq tieScores_def
    by (simp add: rawScores_def scoreToken_def getScore_def t c p)
qed

lemma excerpts_eTie:
  "extractExcerpt (Content docP0) [''physics''] 300 = Inr ''first''"
  "extractExcerpt (Content docP1) [''physics''] 300 = Inr ''second''"
  by (simp_all add: extractExcerpt_def Let_def windowLoop.simps docP0_def docP1_def string_defs)

lemma Search_eTie_01: "Search eTie ''physics'' 5 [0, 1] = Inr [resultP0, resultP1]"
proof -
  have u: "URL docP0 = ''p0''" "URL docP1 = ''p1''" "Title docP0 = ''xphysics''"
    "Title docP1 = ''xphysics''" by (simp_all add: docP0_def docP1_def)
  have dd: "docs eTie = [docP0, docP1]" by (simp add: eTie_eq)
  show ?thesis
    by (simp add: Search_def tokenize_physics rawScores_eTie dd tieScores_def collect_def
        insertionSort_def List.map_filter_simps Let_def excerpts_eTie u resultP0_def resultP1_def)
qed

lemma Search_eTie_10: "Search eTie ''physics'' 5 [1, 0] = Inr [resultP1, resultP0]"
proof -
  have u: "URL docP0 = ''p0''" "URL docP1 = ''p1''" "Title docP0 = ''xphysics''"
    "Title docP1 = ''xphysics''" by (simp_all add: docP0_def docP1_def)
  have dd: "docs eTie = [docP0, docP1]" by (simp add: eTie_eq)
  show ?thesis
    by (simp add: Search_def tokenize_physics rawScores_eTie dd tieScores_def collect_def
        insertionSort_def List.map_filter_simps Let_def excerpts_eTie u resultP0_def resultP1_def)
qed

subsection \<open>The candidates of a search\<close>

lemma collect_length_rangeOrder:
  assumes "rangeOrder scores order"
  shows "length (collect scores order) = card (dom scores)"
proof -
  have "length (collect scores order) = length (map fst (collect scores order))" by simp
  also have "\<dots> = length order" using collect_rangeOrder [OF assms] by simp
  also have "\<dots> = card (set order)"
    using assms distinct_card [of order] by (simp only: rangeOrder_def)
  also have "\<dots> = card (dom scores)" using assms by (simp only: rangeOrder_def)
  finally show ?thesis .
qed

lemma Search_nonempty:
  assumes "Search e query topK order = Inr results" and "results \<noteq> []"
  shows "length (docs e) \<noteq> 0 \<and> tokenize query \<noteq> [] \<and> 0 < topK"
proof -
  have a: "length (docs e) \<noteq> 0" using assms by (auto simp: Search_def)
  have b: "tokenize query \<noteq> []" using assms a by (auto simp: Search_def Let_def)
  have c: "0 < topK"
  proof (rule ccontr)
    assume "\<not> 0 < topK"
    then have "nat topK = 0" by simp
    then show False using assms a b
      by (auto simp: Search_def Let_def split: sum.splits if_splits)
  qed
  from a b c show ?thesis by simp
qed

subsection \<open>The window loop of the excerpt\<close>

lemma windowLoop_step:
  "windowLoop lower tokens i bestPos bestHits =
     (if i + 200 < length lower then
        if hitsAt lower tokens i > bestHits
        then windowLoop lower tokens (i + 50) i (hitsAt lower tokens i)
        else windowLoop lower tokens (i + 50) bestPos bestHits
      else bestPos)"
proof (cases "i + 200 < length lower")
  case True
  then have c: "int i < int (length lower) - 200" by simp
  have e: "(if i + 200 > length lower then length lower else i + 200) - i = 200"
    using True by simp
  show ?thesis
    using True c by (subst windowLoop.simps) (simp add: Let_def hitsAt_def)
next
  case False
  then have c: "\<not> int i < int (length lower) - 200" by simp
  show ?thesis using False c by (subst windowLoop.simps) simp
qed

lemma windowLoop_first_best:
  assumes "50 dvd i"
  shows "((\<forall>q. 50 dvd q \<and> q + 200 < length lower \<and> i \<le> q \<longrightarrow> hitsAt lower tokens q \<le> bestHits) \<and>
          windowLoop lower tokens i bestPos bestHits = bestPos) \<or>
         (let r = windowLoop lower tokens i bestPos bestHits in
            50 dvd r \<and> r + 200 < length lower \<and> i \<le> r \<and> bestHits < hitsAt lower tokens r \<and>
            (\<forall>q. 50 dvd q \<and> q + 200 < length lower \<and> i \<le> q \<longrightarrow>
                 hitsAt lower tokens q \<le> hitsAt lower tokens r) \<and>
            (\<forall>q. 50 dvd q \<and> q + 200 < length lower \<and> i \<le> q \<and> q < r \<longrightarrow>
                 hitsAt lower tokens q < hitsAt lower tokens r))"
  using assms
proof (induction lower tokens i bestPos bestHits rule: windowLoop.induct)
  case (1 lower tokens i bestPos bestHits)
  let ?h = "hitsAt lower tokens"
  have next50: "\<And>q. 50 dvd q \<Longrightarrow> i \<le> q \<Longrightarrow> q \<noteq> i \<Longrightarrow> i + 50 \<le> q"
    using "1.prems" by (auto elim!: dvdE)
  have d50: "50 dvd i + 50" using "1.prems" by simp
  show ?case
  proof (cases "i + 200 < length lower")
    case False
    then have "windowLoop lower tokens i bestPos bestHits = bestPos"
      by (subst windowLoop_step) simp
    moreover have "\<forall>q. 50 dvd q \<and> q + 200 < length lower \<and> i \<le> q \<longrightarrow> ?h q \<le> bestHits"
      using False by auto
    ultimately show ?thesis by simp
  next
    case True
    then have c: "int i < int (length lower) - 200" by simp
    have e: "(if i + 200 > length lower then length lower else i + 200) - i = 200"
      using True by simp
    have hh: "length (filter (\<lambda>tok. Contains (take ((if i + 200 > length lower then length lower
        else i + 200) - i) (drop i lower)) tok) tokens) = ?h i"
      unfolding e by (simp add: hitsAt_def)
    show ?thesis
    proof (cases "?h i > bestHits")
      case g: True
      have eq: "windowLoop lower tokens i bestPos bestHits = windowLoop lower tokens (i + 50) i (?h i)"
        using True g by (subst windowLoop_step) simp
      have g': "bestHits < length (filter (\<lambda>tok. Contains (take ((if i + 200 > length lower
          then length lower else i + 200) - i) (drop i lower)) tok) tokens)"
        unfolding hh using g .
      note ih = "1.IH"(1) [OF c refl refl refl g' d50, unfolded hh]
      let ?r = "windowLoop lower tokens (i + 50) i (?h i)"
      from ih show ?thesis
      proof
        assume a: "(\<forall>q. 50 dvd q \<and> q + 200 < length lower \<and> i + 50 \<le> q \<longrightarrow> ?h q \<le> ?h i) \<and> ?r = i"
        have all: "\<forall>q. 50 dvd q \<and> q + 200 < length lower \<and> i \<le> q \<longrightarrow> ?h q \<le> ?h i"
        proof (intro allI impI)
          fix q assume q: "50 dvd q \<and> q + 200 < length lower \<and> i \<le> q"
          show "?h q \<le> ?h i"
          proof (cases "q = i")
            case True
            then show ?thesis by simp
          next
            case False
            then have "i + 50 \<le> q" using next50 q by simp
            then show ?thesis using a q by simp
          qed
        qed
        have "50 dvd i \<and> i + 200 < length lower \<and> i \<le> i \<and> bestHits < ?h i"
          using "1.prems" True g by simp
        then show ?thesis unfolding eq using a all by (simp add: Let_def)
      next
        assume b: "let r = ?r in
            50 dvd r \<and> r + 200 < length lower \<and> i + 50 \<le> r \<and> ?h i < ?h r \<and>
            (\<forall>q. 50 dvd q \<and> q + 200 < length lower \<and> i + 50 \<le> q \<longrightarrow> ?h q \<le> ?h r) \<and>
            (\<forall>q. 50 dvd q \<and> q + 200 < length lower \<and> i + 50 \<le> q \<and> q < r \<longrightarrow> ?h q < ?h r)"
        then have b1: "50 dvd ?r" "?r + 200 < length lower" "i + 50 \<le> ?r" "?h i < ?h ?r"
          and b2: "\<forall>q. 50 dvd q \<and> q + 200 < length lower \<and> i + 50 \<le> q \<longrightarrow> ?h q \<le> ?h ?r"
          and b3: "\<forall>q. 50 dvd q \<and> q + 200 < length lower \<and> i + 50 \<le> q \<and> q < ?r \<longrightarrow> ?h q < ?h ?r"
          by (simp_all add: Let_def)
        have all: "\<forall>q. 50 dvd q \<and> q + 200 < length lower \<and> i \<le> q \<longrightarrow> ?h q \<le> ?h ?r"
        proof (intro allI impI)
          fix q assume q: "50 dvd q \<and> q + 200 < length lower \<and> i \<le> q"
          show "?h q \<le> ?h ?r"
          proof (cases "q = i")
            case True
            then show ?thesis using b1(4) by simp
          next
            case False
            then have "i + 50 \<le> q" using next50 q by simp
            then show ?thesis using b2 q by simp
          qed
        qed
        have before: "\<forall>q. 50 dvd q \<and> q + 200 < length lower \<and> i \<le> q \<and> q < ?r \<longrightarrow> ?h q < ?h ?r"
        proof (intro allI impI)
          fix q assume q: "50 dvd q \<and> q + 200 < length lower \<and> i \<le> q \<and> q < ?r"
          show "?h q < ?h ?r"
          proof (cases "q = i")
            case True
            then show ?thesis using b1(4) by simp
          next
            case False
            then have "i + 50 \<le> q" using next50 q by simp
            then show ?thesis using b3 q by simp
          qed
        qed
        have "bestHits < ?h ?r" using g b1(4) by simp
        moreover have "i \<le> ?r" using b1(3) by simp
        ultimately show ?thesis unfolding eq using b1 all before by (simp add: Let_def)
      qed
    next
      case g: False
      have eq: "windowLoop lower tokens i bestPos bestHits =
          windowLoop lower tokens (i + 50) bestPos bestHits"
        using True g by (subst windowLoop_step) simp
      have g': "\<not> bestHits < length (filter (\<lambda>tok. Contains (take ((if i + 200 > length lower
          then length lower else i + 200) - i) (drop i lower)) tok) tokens)"
        unfolding hh using g .
      note ih = "1.IH"(2) [OF c refl refl refl g' d50]
      let ?r = "windowLoop lower tokens (i + 50) bestPos bestHits"
      from ih show ?thesis
      proof
        assume a: "(\<forall>q. 50 dvd q \<and> q + 200 < length lower \<and> i + 50 \<le> q \<longrightarrow> ?h q \<le> bestHits) \<and>
            ?r = bestPos"
        have all: "\<forall>q. 50 dvd q \<and> q + 200 < length lower \<and> i \<le> q \<longrightarrow> ?h q \<le> bestHits"
        proof (intro allI impI)
          fix q assume q: "50 dvd q \<and> q + 200 < length lower \<and> i \<le> q"
          show "?h q \<le> bestHits"
          proof (cases "q = i")
            case True
            then show ?thesis using g by simp
          next
            case False
            then have "i + 50 \<le> q" using next50 q by simp
            then show ?thesis using a q by simp
          qed
        qed
        show ?thesis unfolding eq using a all by simp
      next
        assume b: "let r = ?r in
            50 dvd r \<and> r + 200 < length lower \<and> i + 50 \<le> r \<and> bestHits < ?h r \<and>
            (\<forall>q. 50 dvd q \<and> q + 200 < length lower \<and> i + 50 \<le> q \<longrightarrow> ?h q \<le> ?h r) \<and>
            (\<forall>q. 50 dvd q \<and> q + 200 < length lower \<and> i + 50 \<le> q \<and> q < r \<longrightarrow> ?h q < ?h r)"
        then have b1: "50 dvd ?r" "?r + 200 < length lower" "i + 50 \<le> ?r" "bestHits < ?h ?r"
          and b2: "\<forall>q. 50 dvd q \<and> q + 200 < length lower \<and> i + 50 \<le> q \<longrightarrow> ?h q \<le> ?h ?r"
          and b3: "\<forall>q. 50 dvd q \<and> q + 200 < length lower \<and> i + 50 \<le> q \<and> q < ?r \<longrightarrow> ?h q < ?h ?r"
          by (simp_all add: Let_def)
        have hi: "?h i < ?h ?r" using g b1(4) by simp
        have all: "\<forall>q. 50 dvd q \<and> q + 200 < length lower \<and> i \<le> q \<longrightarrow> ?h q \<le> ?h ?r"
        proof (intro allI impI)
          fix q assume q: "50 dvd q \<and> q + 200 < length lower \<and> i \<le> q"
          show "?h q \<le> ?h ?r"
          proof (cases "q = i")
            case True
            then show ?thesis using hi by simp
          next
            case False
            then have "i + 50 \<le> q" using next50 q by simp
            then show ?thesis using b2 q by simp
          qed
        qed
        have before: "\<forall>q. 50 dvd q \<and> q + 200 < length lower \<and> i \<le> q \<and> q < ?r \<longrightarrow> ?h q < ?h ?r"
        proof (intro allI impI)
          fix q assume q: "50 dvd q \<and> q + 200 < length lower \<and> i \<le> q \<and> q < ?r"
          show "?h q < ?h ?r"
          proof (cases "q = i")
            case True
            then show ?thesis using hi by simp
          next
            case False
            then have "i + 50 \<le> q" using next50 q by simp
            then show ?thesis using b3 q by simp
          qed
        qed
        have "i \<le> ?r" using b1(3) by simp
        then show ?thesis unfolding eq using b1 all before by (simp add: Let_def)
      qed
    qed
  qed
qed

subsection \<open>Claims about the store and the index\<close>




text \<open>
  Claim C2. The claim says that a postings list never holds a slot twice, also after a
  document is added again. The code appends the slot on every call of \<open>reindexDoc\<close>: the set
  \<open>seen\<close> removes duplicates within one call only. After \<open>docA\<close> is added twice to a new
  engine there is one document, in slot 0, and the postings of \<open>foo\<close> hold slot 0 twice.
\<close>

theorem reindex_duplicates_postings:
  "postings (index (AddDoc docA NewEngine)) ''foo'' = [0] \<and>
   postings (index (AddDoc docA (AddDoc docA NewEngine))) ''foo'' = [0, 0] \<and>
   DocCount (AddDoc docA (AddDoc docA NewEngine)) = 1"
  by (simp add: engine_defs docA_def string_defs DocCount_def)

text \<open>
  Claim C8. When \<open>LoadCache\<close> returns an error, the state of the engine is the state before
  the call; and it returns an error exactly when reading the file or parsing it fails,
  both of which happen before the first \<open>AddDoc\<close>.
\<close>

theorem LoadCache_error_keeps_state:
  "(fst (LoadCache readFile unmarshal path e) = Some err \<longrightarrow>
      snd (LoadCache readFile unmarshal path e) = e) \<and>
   (fst (LoadCache readFile unmarshal path e) \<noteq> None \<longleftrightarrow>
      (\<exists>err. readFile path = Inl err) \<or>
      (\<exists>data err. readFile path = Inr data \<and> unmarshal data = Inl err))"
  by (auto simp: LoadCache_def split: sum.splits)

theorem LoadCache_error_keeps_state_witness:
  "fst (LoadCache (\<lambda>p. Inr ''{'') (\<lambda>d. if d = ''{'' then Inl ''unexpected end of JSON input'' else Inr [docB])
         ''cache.json'' (AddDoc docA NewEngine)) = Some ''unexpected end of JSON input'' \<and>
   snd (LoadCache (\<lambda>p. Inr ''{'') (\<lambda>d. if d = ''{'' then Inl ''unexpected end of JSON input'' else Inr [docB])
         ''cache.json'' (AddDoc docA NewEngine)) = AddDoc docA NewEngine"
proof -
  have f: "fst (LoadCache (\<lambda>p. Inr ''{'') (\<lambda>d. if d = ''{'' then Inl ''unexpected end of JSON input'' else Inr [docB])
         ''cache.json'' (AddDoc docA NewEngine)) = Some ''unexpected end of JSON input''"
    by (simp add: LoadCache_def)
  from LoadCache_error_keeps_state [THEN conjunct1, rule_format, OF f] f show ?thesis by simp
qed

text \<open>
  Claim C10. Every integer in a postings list is the index of a stored document: the
  invariant \<open>slotsValid\<close> holds for the new engine and is kept by \<open>AddDoc\<close>, \<open>AddResults\<close>
  and \<open>LoadCache\<close> (\<open>Search\<close> and \<open>SaveCache\<close> do not change the state), so in every
  reachable engine every posting is at least 0 and less than the number of documents.
  On such an engine neither \<open>scoreToken\<close> nor \<open>Search\<close> reads \<open>e.docs\<close> out of range.
\<close>

theorem postings_slots_in_range:
  "slotsValid NewEngine \<and>
   (slotsValid e \<longrightarrow>
      slotsValid (AddDoc doc e) \<and> slotsValid (AddResults results e) \<and>
      slotsValid (snd (LoadCache readFile unmarshal path e))) \<and>
   (reachable e \<longrightarrow>
      (\<forall>t ps i. (t, ps) \<in> set (index e) \<longrightarrow> i \<in> set ps \<longrightarrow> 0 \<le> i \<and> i < DocCount e)) \<and>
   (slotsValid e \<longrightarrow>
      scoreToken e tok queryTokens scores N avgLen k1 b boost \<noteq> Inl IndexOutOfRange \<and>
      Search e query topK order \<noteq> Inl IndexOutOfRange)"
proof (intro conjI impI)
  show "slotsValid NewEngine" by (rule slotsValid_NewEngine)
next
  assume "slotsValid e"
  then show "slotsValid (AddDoc doc e)" by (rule slotsValid_AddDoc)
next
  assume "slotsValid e"
  then show "slotsValid (AddResults results e)" by (rule slotsValid_AddResults)
next
  assume "slotsValid e"
  then show "slotsValid (snd (LoadCache readFile unmarshal path e))" by (rule slotsValid_LoadCache)
next
  assume "reachable e"
  then have "slotsValid e" by (rule reachable_slotsValid)
  then show "\<forall>t ps i. (t, ps) \<in> set (index e) \<longrightarrow> i \<in> set ps \<longrightarrow> 0 \<le> i \<and> i < DocCount e"
    by (simp add: slotsValid_iff DocCount_def)
next
  assume "slotsValid e"
  then show "scoreToken e tok queryTokens scores N avgLen k1 b boost \<noteq> Inl IndexOutOfRange"
    by (rule scoreToken_no_index_fault)
next
  assume v: "slotsValid e"
  show "Search e query topK order \<noteq> Inl IndexOutOfRange"
  proof
    assume "Search e query topK order = Inl IndexOutOfRange"
    from Search_fault [OF v this] show False by simp
  qed
qed

theorem postings_slots_in_range_witness:
  "reachable (AddDoc docA NewEngine) \<and> slotsValid (AddDoc docA NewEngine) \<and>
   (''foo'', [0]) \<in> set (index (AddDoc docA NewEngine)) \<and> (0::int) \<in> set [0] \<and>
   (0::int) < DocCount (AddDoc docA NewEngine) \<and>
   slotsValid (AddDoc docB (AddDoc docA NewEngine)) \<and>
   Search (AddDoc docA NewEngine) ''foo'' 5 [0] \<noteq> Inl IndexOutOfRange"
proof -
  have r: "reachable (AddDoc docA NewEngine)" by (intro reachable.intros)
  have v: "slotsValid (AddDoc docA NewEngine)"
    unfolding index_docA by (simp add: slotsValid_def)
  have m: "(''foo'', [0]) \<in> set (index (AddDoc docA NewEngine))"
    unfolding index_docA by simp
  have t: "slotsValid (AddDoc docB (AddDoc docA NewEngine)) \<and>
      (0::int) < DocCount (AddDoc docA NewEngine) \<and>
      Search (AddDoc docA NewEngine) ''foo'' 5 [0] \<noteq> Inl IndexOutOfRange"
    using postings_slots_in_range [where e = "AddDoc docA NewEngine" and doc = docB
      and query = "''foo''" and topK = 5 and order = "[0]" and results = "[]"
      and readFile = "\<lambda>p. Inl ''open''" and unmarshal = "\<lambda>d. Inl ''parse''" and path = "''p''"
      and tok = "''foo''" and queryTokens = "[''foo'']" and scores = Map.empty
      and N = "Fin 1" and avgLen = "Fin 2" and ?k1.0 = "Fin (3/2)" and b = "Fin (3/4)"
      and boost = "Fin 1"] r v m
    by fastforce
  from t r v m show ?thesis by simp
qed

subsection \<open>Claims about the scorer\<close>

text \<open>
  Claim C5. On an engine with valid slots whose average document length \<open>a\<close> is positive,
  the call of \<open>scoreToken\<close> for the exact match of a non-empty token \<open>tok\<close> (weight 1,
  \<open>k1 = 1.5\<close>, \<open>b = 0.75\<close>, \<open>N\<close> the number of documents) returns, and adds to every slot,
  once for each entry of the slot in the postings of \<open>tok\<close>, the value
  \<open>idf * normalizedTF * 1\<close>, where \<open>idf = ln((N - df + 0.5)/(df + 0.5) + 1)\<close>, \<open>df\<close> is the
  length of the postings, \<open>normalizedTF = tf*(k1+1)/(tf + k1*(1 - b + b*docLength/a))\<close>,
  \<open>tf\<close> is the result of \<open>countOccurrences\<close> on content and title (zero exactly when the
  lower-cased text does not contain the token) and \<open>docLength\<close> the number of their
  tokens. \<open>avgDocLen\<close> is the mean token count of the documents, 100 for no document.
  The score of a query is the sum over the list of its tokens, a repeated token counted
  once per occurrence, of the exact and the prefix contributions, plus the title boost.
\<close>

theorem exact_match_score:
  assumes "slotsValid e" and "avgDocLen e = Fin a" and "0 < a"
    and "tok \<noteq> []" and "finiteScores scores" and "\<forall>t \<in> set tokens. t \<noteq> []"
  shows "(\<exists>scores'. scoreToken e tok tokens scores (ofNat (length (docs e))) (avgDocLen e)
             (Fin (3/2)) (Fin (3/4)) (Fin 1) = Inr scores' \<and>
           (\<forall>idx. realScore scores' idx = realScore scores idx +
              real (count_list (postings (index e) tok) idx) *
                (spec_idf (real (length (docs e))) (real (length (postings (index e) tok))) *
                 spec_normalizedTF (real (tfOf e tok idx)) (real (docLenOf e idx)) a * 1))) \<and>
         (\<forall>idx. tfOf e tok idx = 0 \<longleftrightarrow>
            \<not> Contains (ToLower (Content (docs e ! nat idx) @ '' '' @ Title (docs e ! nat idx))) tok) \<and>
         avgDocLen e =
           Fin (if docs e = [] then 100
                else real (\<Sum>d\<leftarrow>docs e. length (tokenize (Content d @ '' '' @ Title d))) /
                     real (length (docs e))) \<and>
         (\<exists>s. rawScores e tokens = Inr s \<and>
           (\<forall>idx. realScore s idx =
              (\<Sum>t\<leftarrow>tokens. termScore e a t idx * 1 +
                 (\<Sum>u\<leftarrow>prefixTerms t (map fst (index e)). termScore e a u idx * (7/10))) +
              titleBonus e tokens idx))"
proof (intro conjI)
  from scoreToken_real [OF assms(1,4,3,5), of tokens 1]
  show "\<exists>scores'. scoreToken e tok tokens scores (ofNat (length (docs e))) (avgDocLen e)
             (Fin (3/2)) (Fin (3/4)) (Fin 1) = Inr scores' \<and>
           (\<forall>idx. realScore scores' idx = realScore scores idx +
              real (count_list (postings (index e) tok) idx) *
                (spec_idf (real (length (docs e))) (real (length (postings (index e) tok))) *
                 spec_normalizedTF (real (tfOf e tok idx)) (real (docLenOf e idx)) a * 1))"
    unfolding assms(2) termScore_def by auto
next
  show "\<forall>idx. tfOf e tok idx = 0 \<longleftrightarrow>
      \<not> Contains (ToLower (Content (docs e ! nat idx) @ '' '' @ Title (docs e ! nat idx))) tok"
    using tfOf_zero [OF assms(4)] by blast
next
  show "avgDocLen e =
           Fin (if docs e = [] then 100
                else real (\<Sum>d\<leftarrow>docs e. length (tokenize (Content d @ '' '' @ Title d))) /
                     real (length (docs e)))"
    by (rule avgDocLen_mean)
next
  from rawScores_real [OF assms(1,6,2,3)]
  show "\<exists>s. rawScores e tokens = Inr s \<and>
           (\<forall>idx. realScore s idx =
              (\<Sum>t\<leftarrow>tokens. termScore e a t idx * 1 +
                 (\<Sum>u\<leftarrow>prefixTerms t (map fst (index e)). termScore e a u idx * (7/10))) +
              titleBonus e tokens idx)"
    unfolding queryScore_def by blast
qed

theorem exact_match_score_witness:
  "slotsValid eA \<and> avgDocLen eA = Fin 3 \<and> finiteScores Map.empty \<and>
   (\<exists>scores'. scoreToken eA ''foo'' [''foo'', ''foo''] Map.empty (ofNat (length (docs eA)))
        (avgDocLen eA) (Fin (3/2)) (Fin (3/4)) (Fin 1) = Inr scores' \<and>
      realScore scores' 0 = spec_idf 1 1 * spec_normalizedTF 2 3 3) \<and>
   (\<exists>s. rawScores eA [''foo'', ''foo''] = Inr s \<and>
      realScore s 0 = spec_idf 1 1 * spec_normalizedTF 2 3 3 + spec_idf 1 1 * spec_normalizedTF 2 3 3 + 4)"
proof -
  have v: "slotsValid eA" by (simp add: eA_eq slotsValid_def)
  have a: "avgDocLen eA = Fin 3"
    by (simp add: eA_eq avgDocLen_def ofNat_def docA_def string_defs)
  have f: "finiteScores Map.empty" by (rule finiteScores_empty)
  have tf: "tfOf eA ''foo'' 0 = 2"
    by (simp add: eA_eq tfOf_def countOccurrences_def countLoop.simps docA_def string_defs)
  have dl: "docLenOf eA 0 = 3"
    by (simp add: eA_eq docLenOf_def docA_def string_defs)
  have ps: "postings (index eA) ''foo'' = [0]" by (simp add: eA_eq postings_def)
  have n: "length (docs eA) = 1" by (simp add: eA_eq)
  have pt: "prefixTerms ''foo'' (map fst (index eA)) = []"
    by (simp add: eA_eq prefixTerms_def string_defs)
  have tb: "titleBonus eA [''foo'', ''foo''] 0 = 4"
    by (simp add: eA_eq titleBonus_def docA_def string_defs)
  have ts: "termScore eA 3 ''foo'' 0 = spec_idf 1 1 * spec_normalizedTF 2 3 3"
    by (simp add: termScore_def ps n tf dl)
  have ne: "\<forall>t \<in> set [''foo'', ''foo'']. t \<noteq> []" by simp
  have pos: "(0::real) < 3" by simp
  have tok: "''foo'' \<noteq> []" by simp
  note t = exact_match_score [OF v a pos tok f ne]
  from t obtain sc where sc: "scoreToken eA ''foo'' [''foo'', ''foo''] Map.empty
      (ofNat (length (docs eA))) (avgDocLen eA) (Fin (3/2)) (Fin (3/4)) (Fin 1) = Inr sc"
    "\<forall>idx. realScore sc idx = realScore Map.empty idx +
        real (count_list (postings (index eA) ''foo'') idx) *
          (spec_idf (real (length (docs eA))) (real (length (postings (index eA) ''foo''))) *
           spec_normalizedTF (real (tfOf eA ''foo'' idx)) (real (docLenOf eA idx)) 3 * 1)"
    by blast
  from t obtain s where s: "rawScores eA [''foo'', ''foo''] = Inr s"
    "\<forall>idx. realScore s idx =
        (\<Sum>t\<leftarrow>[''foo'', ''foo'']. termScore eA 3 t idx * 1 +
           (\<Sum>u\<leftarrow>prefixTerms t (map fst (index eA)). termScore eA 3 u idx * (7/10))) +
        titleBonus eA [''foo'', ''foo''] idx"
    by blast
  have r1: "realScore sc 0 = spec_idf 1 1 * spec_normalizedTF 2 3 3"
    using sc(2) [rule_format, of 0] by (simp add: ps n tf dl realScore_empty)
  have r2: "realScore s 0 =
      spec_idf 1 1 * spec_normalizedTF 2 3 3 + spec_idf 1 1 * spec_normalizedTF 2 3 3 + 4"
    using s(2) [rule_format, of 0] by (simp add: pt tb ts)
  from v a f sc(1) r1 s(1) r2 show ?thesis by blast
qed

text \<open>
  Claim C6. On an engine with valid slots and a positive average document length, the
  prefix loop for a query token \<open>tok\<close> returns and adds, for every key \<open>u\<close> of the index with
  \<open>u \<noteq> tok\<close>, \<open>tok\<close> a prefix of \<open>u\<close> and \<open>tok\<close> of length at least 3, the contribution of
  \<open>u\<close> (its own postings, document frequency and term frequency) with weight 0.7. With
  only \<open>rigidbody\<close> indexed, the exact match for \<open>rigid\<close> adds nothing, the score of slot 0
  is \<open>ln(4/3) * 0.7 > 0\<close>, and \<open>Search("rigid", 5)\<close> returns the document, with the
  normalised score 1.
\<close>

theorem prefix_match_score:
  "(slotsValid e \<and> avgDocLen e = Fin a \<and> 0 < a \<and> finiteScores scores \<longrightarrow>
     (\<exists>scores'. prefixLoop e tok tokens (map fst (index e)) scores (ofNat (length (docs e)))
          (avgDocLen e) (Fin (3/2)) (Fin (3/4)) = Inr scores' \<and>
        (\<forall>idx. realScore scores' idx = realScore scores idx +
           (\<Sum>u\<leftarrow>filter (\<lambda>u. u \<noteq> tok \<and> HasPrefix u tok \<and> 3 \<le> length tok) (map fst (index e)).
              real (count_list (postings (index e) u) idx) *
                (spec_idf (real (length (docs e))) (real (length (postings (index e) u))) *
                 spec_normalizedTF (real (tfOf e u idx)) (real (docLenOf e idx)) a) * (7/10))))) \<and>
   map fst (index eRigid) = [''rigidbody''] \<and>
   scoreToken eRigid ''rigid'' [''rigid''] Map.empty (ofNat 1) (avgDocLen eRigid) (Fin (3/2))
      (Fin (3/4)) (Fin 1) = Inr Map.empty \<and>
   rawScores eRigid (tokenize ''rigid'') = Inr [0 \<mapsto> Fin (ln (4/3) * (7/10))] \<and>
   0 < ln (4/3) * (7/10 :: real) \<and>
   Search eRigid ''rigid'' 5 [0] =
     Inr [\<lparr>rTitle = [], rURL = ''u1'', Excerpt = ''rigidbody'', Score = Fin 1\<rparr>]"
proof (intro conjI impI)
  assume h: "slotsValid e \<and> avgDocLen e = Fin a \<and> 0 < a \<and> finiteScores scores"
  then have v: "slotsValid e" and a: "avgDocLen e = Fin a" and p: "0 < a"
    and f: "finiteScores scores" by simp_all
  from prefixLoop_real [OF v p f, of tok tokens "map fst (index e)"]
  show "\<exists>scores'. prefixLoop e tok tokens (map fst (index e)) scores (ofNat (length (docs e)))
          (avgDocLen e) (Fin (3/2)) (Fin (3/4)) = Inr scores' \<and>
        (\<forall>idx. realScore scores' idx = realScore scores idx +
           (\<Sum>u\<leftarrow>filter (\<lambda>u. u \<noteq> tok \<and> HasPrefix u tok \<and> 3 \<le> length tok) (map fst (index e)).
              real (count_list (postings (index e) u) idx) *
                (spec_idf (real (length (docs e))) (real (length (postings (index e) u))) *
                 spec_normalizedTF (real (tfOf e u idx)) (real (docLenOf e idx)) a) * (7/10)))"
    unfolding a prefixTerms_def termScore_def by blast
next
  show "map fst (index eRigid) = [''rigidbody'']" by (simp add: eRigid_eq)
next
  show "scoreToken eRigid ''rigid'' [''rigid''] Map.empty (ofNat 1) (avgDocLen eRigid) (Fin (3/2))
      (Fin (3/4)) (Fin 1) = Inr Map.empty"
    by (simp add: eRigid_eq scoreToken_def)
next
  have "tokenize ''rigid'' = [''rigid'']" by (simp add: string_defs)
  then show "rawScores eRigid (tokenize ''rigid'') = Inr [0 \<mapsto> Fin (ln (4/3) * (7/10))]"
    by (simp only: rawScores_eRigid)
next
  show "0 < ln (4/3) * (7/10 :: real)" by simp
next
  show "Search eRigid ''rigid'' 5 [0] =
     Inr [\<lparr>rTitle = [], rURL = ''u1'', Excerpt = ''rigidbody'', Score = Fin 1\<rparr>]"
    by (rule Search_eRigid)
qed

theorem prefix_match_score_witness:
  "slotsValid eRigid \<and> avgDocLen eRigid = Fin 1 \<and> finiteScores Map.empty \<and>
   (\<exists>scores'. prefixLoop eRigid ''rigid'' [''rigid''] (map fst (index eRigid)) Map.empty
        (ofNat (length (docs eRigid))) (avgDocLen eRigid) (Fin (3/2)) (Fin (3/4)) = Inr scores' \<and>
      realScore scores' 0 = spec_idf 1 1 * spec_normalizedTF 1 1 1 * (7/10))"
proof -
  have v: "slotsValid eRigid" by (simp add: eRigid_eq slotsValid_def)
  have a: "avgDocLen eRigid = Fin 1"
    by (simp add: eRigid_eq avgDocLen_def ofNat_def docRigid_def string_defs)
  have f: "finiteScores Map.empty" by (rule finiteScores_empty)
  have tf: "tfOf eRigid ''rigidbody'' 0 = 1"
    by (simp add: eRigid_eq tfOf_def countOccurrences_def countLoop.simps docRigid_def string_defs)
  have dl: "docLenOf eRigid 0 = 1"
    by (simp add: eRigid_eq docLenOf_def docRigid_def string_defs)
  have ps: "postings (index eRigid) ''rigidbody'' = [0]" by (simp add: eRigid_eq postings_def)
  have n: "length (docs eRigid) = 1" by (simp add: eRigid_eq)
  have k: "filter (\<lambda>u. u \<noteq> ''rigid'' \<and> HasPrefix u ''rigid'' \<and> 3 \<le> length ''rigid'')
      (map fst (index eRigid)) = [''rigidbody'']"
    by (simp add: eRigid_eq string_defs)
  have h: "slotsValid eRigid \<and> avgDocLen eRigid = Fin 1 \<and> (0::real) < 1 \<and> finiteScores Map.empty"
    using v a f by simp
  note t = prefix_match_score [where e = eRigid and a = 1 and scores = Map.empty
      and tok = "''rigid''" and tokens = "[''rigid'']", THEN conjunct1, rule_format, OF h]
  from t obtain sc where sc: "prefixLoop eRigid ''rigid'' [''rigid''] (map fst (index eRigid)) Map.empty
        (ofNat (length (docs eRigid))) (avgDocLen eRigid) (Fin (3/2)) (Fin (3/4)) = Inr sc"
    "\<forall>idx. realScore sc idx = realScore Map.empty idx +
           (\<Sum>u\<leftarrow>filter (\<lambda>u. u \<noteq> ''rigid'' \<and> HasPrefix u ''rigid'' \<and> 3 \<le> length ''rigid'')
                  (map fst (index eRigid)).
              real (count_list (postings (index eRigid) u) idx) *
                (spec_idf (real (length (docs eRigid))) (real (length (postings (index eRigid) u))) *
                 spec_normalizedTF (real (tfOf eRigid u idx)) (real (docLenOf eRigid idx)) 1) * (7/10))"
    by blast
  have "realScore sc 0 = spec_idf 1 1 * spec_normalizedTF 1 1 1 * (7/10)"
    using sc(2) [rule_format, of 0] unfolding k by (simp add: ps n tf dl realScore_empty)
  with v a f sc(1) show ?thesis by blast
qed

text \<open>
  Claim C9. The claim says that a document with five occurrences of a query term gets at
  least the contribution of an otherwise equal document with one occurrence. That holds
  when the document frequency is at most the number of documents
  (\<open>spec_contribution_mono\<close>). The code lets the document frequency exceed it: after the
  two documents of \<open>eDup\<close> are added twice, the postings of \<open>foo\<close> are \<open>[0, 1, 0, 1]\<close>, so
  \<open>df = 4\<close>, \<open>N = 2\<close> and \<open>idf = ln(2/3) < 0\<close>. Both documents have five tokens; slot 0 has
  five occurrences of \<open>foo\<close>, slot 1 has one, and slot 0 gets the smaller score. \<open>Search\<close>
  ranks the document with one occurrence first.
\<close>

theorem duplicate_postings_reverse_tf_order:
  "DocCount eDup = 2 \<and> postings (index eDup) ''foo'' = [0, 1, 0, 1] \<and>
   tfOf eDup ''foo'' 0 = 5 \<and> tfOf eDup ''foo'' 1 = 1 \<and>
   docLenOf eDup 0 = 5 \<and> docLenOf eDup 1 = 5 \<and> avgDocLen eDup = Fin 5 \<and>
   idfOf (ofNat 2) (ofNat 4) = Fin (ln (2/3)) \<and> ln (2/3) < (0::real) \<and>
   rawScores eDup (tokenize ''foo'') =
     Inr [0 \<mapsto> Fin (ln (2/3) * (25/13) + ln (2/3) * (25/13)), 1 \<mapsto> Fin (ln (2/3) + ln (2/3))] \<and>
   ln (2/3) * (25/13) + ln (2/3) * (25/13) < ln (2/3) + ln (2/3 :: real) \<and>
   Search eDup ''foo'' 5 [0, 1] =
      Inr [\<lparr>rTitle = [], rURL = ''b'', Excerpt = ''foo bar bar bar bar'', Score = Fin 0\<rparr>,
           \<lparr>rTitle = [], rURL = ''a'', Excerpt = ''foo foo foo foo foo'', Score = Fin 0\<rparr>]"
proof (intro conjI)
  have t5: "Title docFive = []" and t1: "Title docOne = []"
    by (simp_all add: docFive_def docOne_def)
  have d5: "tokenize (Content docFive @ '' '') = [''foo'', ''foo'', ''foo'', ''foo'', ''foo'']"
    by (simp add: docFive_def string_defs)
  have d1: "tokenize (Content docOne @ '' '') = [''foo'', ''bar'', ''bar'', ''bar'', ''bar'']"
    by (simp add: docOne_def string_defs)
  have c5: "countOccurrences ''foo'' (Content docFive @ '' '') = Some 5"
    by (simp add: countOccurrences_def countLoop.simps docFive_def string_defs)
  have c1: "countOccurrences ''foo'' (Content docOne @ '' '') = Some 1"
    by (simp add: countOccurrences_def countLoop.simps docOne_def string_defs)
  show "DocCount eDup = 2" by (simp add: eDup_eq DocCount_def)
  show "postings (index eDup) ''foo'' = [0, 1, 0, 1]" by (simp add: eDup_eq postings_def)
  show "tfOf eDup ''foo'' 0 = 5" by (simp add: eDup_eq tfOf_def t5 c5)
  show "tfOf eDup ''foo'' 1 = 1" by (simp add: eDup_eq tfOf_def t1 c1)
  show "docLenOf eDup 0 = 5" by (simp add: eDup_eq docLenOf_def t5 d5)
  show "docLenOf eDup 1 = 5" by (simp add: eDup_eq docLenOf_def t1 d1)
  show "avgDocLen eDup = Fin 5" by (simp add: eDup_eq avgDocLen_def ofNat_def t5 t1 d5 d1)
  show "idfOf (ofNat 2) (ofNat 4) = Fin (ln (2/3))" by (simp add: idfOf_def ofNat_def fsub_def)
  show l: "ln (2/3) < (0::real)" by simp
  have tk: "tokenize ''foo'' = [''foo'']" by (simp add: string_defs)
  show r: "rawScores eDup (tokenize ''foo'') =
     Inr [0 \<mapsto> Fin (ln (2/3) * (25/13) + ln (2/3) * (25/13)), 1 \<mapsto> Fin (ln (2/3) + ln (2/3))]"
    unfolding tk eDup_eq
    by (simp add: rawScores_def scoreToken_def avgDocLen_def ofNat_def idfOf_def tfNorm_def
        fsub_def getScore_def t5 t1 d5 d1 c5 c1 HasPrefix_def ToLower_def Contains_def
        fun_upd_twist)
  show c: "ln (2/3) * (25/13) + ln (2/3) * (25/13) < ln (2/3) + ln (2/3 :: real)"
    using l by simp
  define x :: real where "x = ln (2/3) * (25/13) + ln (2/3) * (25/13)"
  define y :: real where "y = ln (2/3) + ln (2/3)"
  have xy: "x < y" using c by (simp only: x_def y_def)
  have y0: "\<not> 0 < y" using l by (simp add: y_def)
  have r': "rawScores eDup [''foo''] = Inr [0 \<mapsto> Fin x, 1 \<mapsto> Fin y]"
    using r unfolding tk x_def y_def .
  have x5: "extractExcerpt (Content docFive) [''foo''] 300 = Inr ''foo foo foo foo foo''"
    by (simp add: extractExcerpt_def Let_def windowLoop.simps docFive_def string_defs)
  have x1: "extractExcerpt (Content docOne) [''foo''] 300 = Inr ''foo bar bar bar bar''"
    by (simp add: extractExcerpt_def Let_def windowLoop.simps docOne_def string_defs)
  have u: "URL docFive = ''a''" "URL docOne = ''b''" by (simp_all add: docFive_def docOne_def)
  have dd: "docs eDup = [docFive, docOne]" by (simp add: eDup_eq)
  show "Search eDup ''foo'' 5 [0, 1] =
      Inr [\<lparr>rTitle = [], rURL = ''b'', Excerpt = ''foo bar bar bar bar'', Score = Fin 0\<rparr>,
           \<lparr>rTitle = [], rURL = ''a'', Excerpt = ''foo foo foo foo foo'', Score = Fin 0\<rparr>]"
    using xy y0
    by (simp add: Search_def tk r' dd collect_def insertionSort_def List.map_filter_simps
        Let_def x5 x1 t5 t1 u)
qed

subsection \<open>Claims about ranking and normalisation\<close>

text \<open>
  Claim C1, as amended. \<open>Search\<close> has no filter on the sign of a score: every slot with an
  entry in the score map is a ranked candidate, so a result list that is not empty has
  \<open>min(topK, number of entries)\<close> results. Let \<open>top\<close> be the raw score of the first ranked
  candidate. When \<open>top > 0\<close>, the first result has the normalised score 1 and every result
  has its raw score divided by \<open>top\<close>; otherwise every result has the score 0. When all raw
  scores are finite, no normalised score is greater than 1. (A normalised score may be
  zero or negative.)
\<close>

theorem Search_normalization:
  assumes "slotsValid e" and "Search e query topK order = Inr results" and "results \<noteq> []"
  shows "\<exists>scores ranked top.
     rawScores e (tokenize query) = Inr scores \<and>
     ranked = insertionSort (collect scores order) \<and> top = snd (hd ranked) \<and>
     length results = min (nat topK) (length (collect scores order)) \<and>
     (rangeOrder scores order \<longrightarrow> length (collect scores order) = card (dom scores)) \<and>
     (fgt top (Fin 0) \<longrightarrow>
        Score (hd results) = Fin 1 \<and>
        map Score results = map (\<lambda>sd. fdiv (snd sd) top) (take (nat topK) ranked)) \<and>
     (\<not> fgt top (Fin 0) \<longrightarrow> (\<forall>r \<in> set results. Score r = Fin 0)) \<and>
     (finiteScores scores \<longrightarrow> (\<forall>r \<in> set results. \<not> fgt (Score r) (Fin 1)))"
proof -
  from Search_nonempty [OF assms(2,3)] have d: "length (docs e) \<noteq> 0"
    and t: "tokenize query \<noteq> []" and k: "0 < topK" by simp_all
  then have k0: "0 \<le> topK" by simp
  from Search_unfold [OF assms(1) k0 d t, of order] assms(2) obtain scores where
    s: "rawScores e (tokenize query) = Inr scores"
    and sc: "map Score results =
        map (\<lambda>sd. if fgt (snd (hd (insertionSort (collect scores order)))) (Fin 0)
                   then fdiv (snd sd) (snd (hd (insertionSort (collect scores order)))) else Fin 0)
            (take (nat topK) (insertionSort (collect scores order)))"
    by auto
  define ranked where "ranked = insertionSort (collect scores order)"
  define top where "top = snd (hd ranked)"
  have sc': "map Score results =
      map (\<lambda>sd. if fgt top (Fin 0) then fdiv (snd sd) top else Fin 0) (take (nat topK) ranked)"
    using sc by (simp add: ranked_def top_def)
  have len: "length results = min (nat topK) (length (collect scores order))"
  proof -
    have "length results = length (map Score results)" by simp
    also have "\<dots> = length (take (nat topK) ranked)" unfolding sc' by simp
    finally show ?thesis by (simp add: ranked_def length_insertionSort)
  qed
  have ne: "ranked \<noteq> []"
  proof
    assume "ranked = []"
    then have "map Score results = []" using sc' by simp
    then show False using assms(3) by simp
  qed
  have hdin: "hd ranked \<in> set (collect scores order)"
    using ne by (metis hd_in_set ranked_def set_insertionSort)
  have topS: "scores (fst (hd ranked)) = Some top"
    using collect_set [OF hdin] by (simp add: top_def)
  have topNI: "notInf top"
    using rawScores_notInf [OF s] topS by (auto simp: notInfScores_def)
  have tk: "take (nat topK) ranked = hd ranked # take (nat topK - 1) (tl ranked)"
    using ne k by (cases ranked) (simp_all add: take_Cons')
  have pos: "fgt top (Fin 0) \<longrightarrow>
        Score (hd results) = Fin 1 \<and>
        map Score results = map (\<lambda>sd. fdiv (snd sd) top) (take (nat topK) ranked)"
  proof
    assume g: "fgt top (Fin 0)"
    then obtain x where x: "top = Fin x" "0 < x"
      using notInf_cases [OF topNI] by auto
    have m: "map Score results = map (\<lambda>sd. fdiv (snd sd) top) (take (nat topK) ranked)"
      using sc' g by simp
    have "hd (map Score results) = fdiv top top"
      unfolding m tk by (simp add: top_def)
    then have "Score (hd results) = Fin 1"
      using assms(3) x by (simp add: hd_map)
    with m show "Score (hd results) = Fin 1 \<and>
        map Score results = map (\<lambda>sd. fdiv (snd sd) top) (take (nat topK) ranked)" by simp
  qed
  have zero: "\<not> fgt top (Fin 0) \<longrightarrow> (\<forall>r \<in> set results. Score r = Fin 0)"
  proof
    assume g: "\<not> fgt top (Fin 0)"
    then have "map Score results = map (\<lambda>sd. Fin 0) (take (nat topK) ranked)"
      using sc' by simp
    then have "set (map Score results) \<subseteq> {Fin 0}" by auto
    then show "\<forall>r \<in> set results. Score r = Fin 0" by auto
  qed
  have le1: "finiteScores scores \<longrightarrow> (\<forall>r \<in> set results. \<not> fgt (Score r) (Fin 1))"
  proof
    assume f: "finiteScores scores"
    have fin: "\<forall>sd \<in> set (collect scores order). \<exists>x. snd sd = Fin x"
      using collect_set f by (fastforce simp: finiteScores_def)
    then have nn: "\<forall>sd \<in> set (collect scores order). snd sd \<noteq> NaN" by fastforce
    have srt: "sorted_wrt (\<lambda>a b. \<not> fgt (snd b) (snd a)) ranked"
      unfolding ranked_def using nn by (rule insertionSort_sorted)
    have below: "\<forall>sd \<in> set ranked. \<not> fgt (snd sd) top"
    proof
      fix sd assume "sd \<in> set ranked"
      then have "sd = hd ranked \<or> sd \<in> set (tl ranked)" using ne by (cases ranked) auto
      then show "\<not> fgt (snd sd) top"
      proof
        assume "sd = hd ranked"
        then show ?thesis by (simp add: top_def fgt_irrefl)
      next
        assume "sd \<in> set (tl ranked)"
        then show ?thesis using srt ne unfolding top_def by (cases ranked) auto
      qed
    qed
    obtain x where x: "top = Fin x" using fin hdin by (auto simp: top_def)
    have each: "\<forall>sd \<in> set (take (nat topK) ranked).
        \<not> fgt (if fgt top (Fin 0) then fdiv (snd sd) top else Fin 0) (Fin 1)"
    proof
      fix sd assume "sd \<in> set (take (nat topK) ranked)"
      then have m: "sd \<in> set ranked" by (rule in_set_takeD)
      then obtain y where y: "snd sd = Fin y"
        using fin by (auto simp: ranked_def set_insertionSort)
      have "y \<le> x" using below m x y by auto
      then show "\<not> fgt (if fgt top (Fin 0) then fdiv (snd sd) top else Fin 0) (Fin 1)"
        using x y by (auto simp: divide_le_eq)
    qed
    have "set (map Score results) =
        (\<lambda>sd. if fgt top (Fin 0) then fdiv (snd sd) top else Fin 0) ` set (take (nat topK) ranked)"
      unfolding sc' by simp
    then have "\<forall>v \<in> set (map Score results). \<not> fgt v (Fin 1)" using each by auto
    then show "\<forall>r \<in> set results. \<not> fgt (Score r) (Fin 1)" by auto
  qed
  have cl: "rangeOrder scores order \<longrightarrow> length (collect scores order) = card (dom scores)"
    using collect_length_rangeOrder [of scores order] by simp
  show ?thesis
    apply (rule exI [of _ scores])
    apply (rule exI [of _ ranked])
    apply (rule exI [of _ top])
    using s len cl pos zero le1 ranked_def top_def apply simp
    done
qed

theorem Search_normalization_witness:
  "slotsValid eRigid \<and>
   Search eRigid ''rigid'' 5 [0] =
     Inr [\<lparr>rTitle = [], rURL = ''u1'', Excerpt = ''rigidbody'', Score = Fin 1\<rparr>] \<and>
   (\<exists>scores. rawScores eRigid (tokenize ''rigid'') = Inr scores \<and>
      rangeOrder scores [0] \<and> finiteScores scores \<and> card (dom scores) = 1)"
proof -
  have v: "slotsValid eRigid" by (simp add: eRigid_eq slotsValid_def)
  have ne: "[\<lparr>rTitle = [], rURL = ''u1'', Excerpt = ''rigidbody'', Score = Fin 1\<rparr>] \<noteq> []" by simp
  have tk: "tokenize ''rigid'' = [''rigid'']" by (simp add: string_defs)
  from Search_normalization [OF v Search_eRigid ne] obtain scores where
    s: "rawScores eRigid (tokenize ''rigid'') = Inr scores"
      "rangeOrder scores [0] \<longrightarrow> length (collect scores [0]) = card (dom scores)"
    by blast
  have e: "scores = [0 \<mapsto> Fin (ln (4/3) * (7/10))]"
    using s(1) by (simp add: tk rawScores_eRigid)
  have r: "rangeOrder scores [0]" by (simp add: e rangeOrder_def)
  have f: "finiteScores scores"
    unfolding e by (intro finiteScores_upd finiteScores_empty)
  have c: "card (dom scores) = 1"
    using s(2) r by (simp add: e collect_def List.map_filter_simps)
  from v Search_eRigid s(1) r f c show ?thesis by blast
qed

text \<open>
  Claim C1 as stated fails: the document of \<open>eTag\<close> has the term \<open>physics\<close> in its tags
  only, so its term frequency in content and title is 0 and its raw score is 0. The slot is
  ranked all the same, and the result list of \<open>Search("physics", 5)\<close> is not empty with
  maximum and minimum score 0.
\<close>

theorem zero_score_candidate_counterexample:
  "rawScores eTag (tokenize ''physics'') = Inr tagScores \<and> tagScores 0 = Some (Fin 0) \<and>
   rangeOrder tagScores [0] \<and>
   Search eTag ''physics'' 5 [0] =
     Inr [\<lparr>rTitle = [], rURL = ''u1'', Excerpt = ''hello world'', Score = Fin 0\<rparr>]"
  by (simp add: tokenize_physics rawScores_eTag Search_eTag tagScores_def rangeOrder_def)

text \<open>
  Claim C3, as amended. For a given order in which Go iterates the score map, \<open>Search\<close>
  returns the documents of the first \<open>topK\<close> candidates of the insertion sort of that
  sequence. The sort keeps every candidate, keeps candidates with equal raw scores in the
  order of the iteration (it is stable with respect to it, not to the slot order), and
  when no score is \<open>NaN\<close> its result is in descending order of raw score.
\<close>

theorem Search_ranking_stable:
  assumes "slotsValid e" and "0 \<le> topK" and "length (docs e) \<noteq> 0" and "tokenize query \<noteq> []"
  shows "\<exists>scores ranked results.
     rawScores e (tokenize query) = Inr scores \<and>
     ranked = insertionSort (collect scores order) \<and>
     Search e query topK order = Inr results \<and>
     map rURL results = map (\<lambda>sd. URL (docs e ! nat (fst sd))) (take (nat topK) ranked) \<and>
     mset ranked = mset (collect scores order) \<and>
     (rangeOrder scores order \<longrightarrow> map fst (collect scores order) = order) \<and>
     (\<forall>v. filter (\<lambda>sd. snd sd = v) ranked = filter (\<lambda>sd. snd sd = v) (collect scores order)) \<and>
     ((\<forall>sd \<in> set (collect scores order). snd sd \<noteq> NaN) \<longrightarrow>
        sorted_wrt (\<lambda>a b. \<not> fgt (snd b) (snd a)) ranked)"
proof -
  from Search_unfold [OF assms, of order] obtain scores rs where
    s: "rawScores e (tokenize query) = Inr scores" "Search e query topK order = Inr rs"
    "map rURL rs = map (\<lambda>sd. URL (docs e ! nat (fst sd)))
            (take (nat topK) (insertionSort (collect scores order)))" by blast
  have st: "\<forall>v. filter (\<lambda>sd. snd sd = v) (insertionSort (collect scores order)) =
      filter (\<lambda>sd. snd sd = v) (collect scores order)"
    by (simp add: insertionSort_stable)
  have so: "(\<forall>sd \<in> set (collect scores order). snd sd \<noteq> NaN) \<longrightarrow>
        sorted_wrt (\<lambda>a b. \<not> fgt (snd b) (snd a)) (insertionSort (collect scores order))"
    using insertionSort_sorted [of "collect scores order"] by simp
  have ro: "rangeOrder scores order \<longrightarrow> map fst (collect scores order) = order"
    using collect_rangeOrder [of scores order] by simp
  show ?thesis
    apply (rule exI [of _ scores])
    apply (rule exI [of _ "insertionSort (collect scores order)"])
    apply (rule exI [of _ rs])
    using s st so ro mset_insertionSort [of "collect scores order"] apply simp
    done
qed

theorem Search_ranking_stable_witness:
  "slotsValid eTie \<and> rangeOrder tieScores [1, 0] \<and>
   rawScores eTie (tokenize ''physics'') = Inr tieScores \<and>
   (\<exists>results. Search eTie ''physics'' 5 [1, 0] = Inr results \<and> map rURL results = [''p1'', ''p0''])"
proof -
  have v: "slotsValid eTie" by (simp add: eTie_eq slotsValid_def)
  have k: "(0::int) \<le> 5" by simp
  have d: "length (docs eTie) \<noteq> 0" by (simp add: eTie_eq)
  have t: "tokenize ''physics'' \<noteq> []" by (simp add: tokenize_physics)
  have r: "rangeOrder tieScores [1, 0]" by (auto simp: rangeOrder_def tieScores_def)
  have c: "insertionSort (collect tieScores [1, 0]) = [(1, Fin 2), (0, Fin 2)]"
    by (simp add: collect_def insertionSort_def List.map_filter_simps tieScores_def)
  have u: "URL (docs eTie ! 0) = ''p0''" "URL (docs eTie ! Suc 0) = ''p1''"
    by (simp_all add: eTie_eq docP0_def docP1_def)
  from Search_ranking_stable [OF v k d t, of "[1, 0]"] obtain scores ranked results where
    s: "rawScores eTie (tokenize ''physics'') = Inr scores"
      "ranked = insertionSort (collect scores [1, 0])"
      "Search eTie ''physics'' 5 [1, 0] = Inr results"
      "map rURL results = map (\<lambda>sd. URL (docs eTie ! nat (fst sd))) (take (nat 5) ranked)"
    by blast
  have e: "scores = tieScores" using s(1) by (simp add: tokenize_physics rawScores_eTie)
  have "map rURL results = [''p1'', ''p0'']"
    using s(4) unfolding s(2) e c by (simp add: u)
  with v r s(1) s(3) e show ?thesis by simp
qed

text \<open>
  Claim C3 as stated fails: the two documents of \<open>eTie\<close> get the raw score 2 for the query
  \<open>physics\<close>; both \<open>[0, 1]\<close> and \<open>[1, 0]\<close> are orders in which Go may iterate the score
  map, and \<open>Search\<close> returns the two results in the one order or in the other.
\<close>

theorem tie_order_counterexample:
  "rawScores eTie (tokenize ''physics'') = Inr tieScores \<and>
   tieScores 0 = Some (Fin 2) \<and> tieScores 1 = Some (Fin 2) \<and>
   rangeOrder tieScores [0, 1] \<and> rangeOrder tieScores [1, 0] \<and>
   Search eTie ''physics'' 5 [0, 1] = Inr [resultP0, resultP1] \<and>
   Search eTie ''physics'' 5 [1, 0] = Inr [resultP1, resultP0] \<and>
   resultP0 \<noteq> resultP1"
  by (auto simp: tokenize_physics rawScores_eTie Search_eTie_01 Search_eTie_10 tieScores_def
      rangeOrder_def resultP0_def resultP1_def)

end
